theory Spec2Isabelle
  imports Main "HOL-Library.Sublist"
begin

section \<open>Python strings\<close>

text \<open>
  A Python \<open>str\<close> is modelled as a \<open>string\<close> in which every \<open>char\<close> stands for one
  code point in the range 0..255, so \<open>length\<close> counts code points as \<open>len\<close> does. The
  character classes below are those of CPython for that range: \<open>str.isspace\<close> (which is
  also what \<open>str.strip()\<close> removes and what \<open>\s\<close> matches in a \<open>str\<close> pattern),
  the word characters of \<open>\w\<close> and \<open>\b\<close>, and \<open>str.lower\<close>. Where a code point
  above 255 makes a difference, which is in the keyword search of \<open>validate_input\<close>,
  the text is also modelled as the list of its code points (see the section on input
  validation).
\<close>

definition isspace :: "char \<Rightarrow> bool" where
  "isspace c =
     (let n = (of_char c :: nat)
      in (9 \<le> n \<and> n \<le> 13) \<or> (28 \<le> n \<and> n \<le> 32) \<or> n = 133 \<or> n = 160)"

definition is_word :: "char \<Rightarrow> bool" where
  "is_word c =
     (let n = (of_char c :: nat)
      in (48 \<le> n \<and> n \<le> 57) \<or> (65 \<le> n \<and> n \<le> 90) \<or> n = 95 \<or> (97 \<le> n \<and> n \<le> 122)
         \<or> n = 170 \<or> n = 178 \<or> n = 179 \<or> n = 181 \<or> n = 185 \<or> n = 186
         \<or> (188 \<le> n \<and> n \<le> 190) \<or> (192 \<le> n \<and> n \<le> 214) \<or> (216 \<le> n \<and> n \<le> 246)
         \<or> 248 \<le> n)"

definition py_lower_chr :: "char \<Rightarrow> char" where
  "py_lower_chr c =
     (let n = (of_char c :: nat)
      in if (65 \<le> n \<and> n \<le> 90) \<or> (192 \<le> n \<and> n \<le> 222 \<and> n \<noteq> 215)
         then char_of (n + 32) else c)"

definition py_lower :: "string \<Rightarrow> string" where
  "py_lower s = map py_lower_chr s"

text \<open>
  \<open>str.upper\<close> is only ever applied to a language tag; it is modelled on the ASCII
  letters, which is all the five tags contain.
\<close>

definition py_upper_chr :: "char \<Rightarrow> char" where
  "py_upper_chr c =
     (let n = (of_char c :: nat) in if 97 \<le> n \<and> n \<le> 122 then char_of (n - 32) else c)"

definition py_upper :: "string \<Rightarrow> string" where
  "py_upper s = map py_upper_chr s"

definition py_strip :: "string \<Rightarrow> string" where
  "py_strip s = rev (dropWhile isspace (rev (dropWhile isspace s)))"

text \<open>\<open>p in s\<close> for two strings: \<open>p\<close> occurs in \<open>s\<close> as a contiguous substring.\<close>

fun py_in :: "string \<Rightarrow> string \<Rightarrow> bool" where
  "py_in p [] = (p = [])"
| "py_in p (c # cs) = (prefix p (c # cs) \<or> py_in p cs)"

definition digit_chr :: "nat \<Rightarrow> char" where
  "digit_chr d = char_of (48 + d)"

text \<open>\<open>str(n)\<close> for a non-negative integer.\<close>

fun str_nat :: "nat \<Rightarrow> string" where
  "str_nat n = (if n < 10 then [digit_chr n] else str_nat (n div 10) @ [digit_chr (n mod 10)])"

declare str_nat.simps [simp del]

definition nl :: char where
  "nl = CHR 0x0A"

definition dquote :: char where
  "dquote = CHR 0x22"

definition backslash :: char where
  "backslash = CHR 0x5C"

section \<open>The regular expressions of the program\<close>

text \<open>
  The program uses \<open>re.search\<close>, \<open>re.findall\<close> and \<open>re.sub\<close> with patterns built from
  five constructs: a literal, a capturing group of literal alternatives \<open>(a|b|c)\<close>, the
  capturing lazy group \<open>(.*?)\<close> under \<open>re.DOTALL\<close>, the greedy \<open>\s*\<close> and the word boundary
  \<open>\b\<close>. A pattern is the list of its items in order; every pattern of the program has
  exactly one capturing group. The flag \<open>ic\<close> is \<open>re.IGNORECASE\<close>.
\<close>

datatype rx = Lit string | Grp_Alt "string list" | Grp_Lazy_Any | Space_Star | Word_B

definition chr_eq :: "bool \<Rightarrow> char \<Rightarrow> char \<Rightarrow> bool" where
  "chr_eq ic p c = (if ic then py_lower_chr c = py_lower_chr p else c = p)"

text \<open>The literal \<open>p\<close> matches at the head of the subject.\<close>

fun lit_match :: "bool \<Rightarrow> string \<Rightarrow> string \<Rightarrow> bool" where
  "lit_match ic [] s = True"
| "lit_match ic (p # ps) [] = False"
| "lit_match ic (p # ps) (c # cs) = (chr_eq ic p c \<and> lit_match ic ps cs)"

text \<open>
  \<open>\b\<close> holds between the previous character (\<open>None\<close> at the start of the subject) and
  the rest of the subject when exactly one side is a word character.
\<close>

definition word_b :: "char option \<Rightarrow> string \<Rightarrow> bool" where
  "word_b prev s =
     ((case prev of None \<Rightarrow> False | Some c \<Rightarrow> is_word c)
      \<noteq> (case s of [] \<Rightarrow> False | c # _ \<Rightarrow> is_word c))"

definition prev_after :: "char option \<Rightarrow> string \<Rightarrow> char option" where
  "prev_after prev consumed = (if consumed = [] then prev else Some (last consumed))"

text \<open>
  The backtracking matcher, anchored at the head of the subject: the result is the text
  of the capturing group and the unconsumed rest, or \<open>None\<close> when no way of matching
  exists. Alternatives are tried left to right, \<open>\s*\<close> takes as much as it can and gives
  back, the lazy group takes as little as it can and extends.
\<close>

function (sequential) re_match ::
  "bool \<Rightarrow> rx list \<Rightarrow> char option \<Rightarrow> string \<Rightarrow> (string \<times> string) option" where
  "re_match ic [] prev s = Some ([], s)"
| "re_match ic (Lit p # r) prev s =
     (if lit_match ic p s
      then re_match ic r (prev_after prev (take (length p) s)) (drop (length p) s)
      else None)"
| "re_match ic (Grp_Alt [] # r) prev s = None"
| "re_match ic (Grp_Alt (p # ps) # r) prev s =
     (if lit_match ic p s
      then (case re_match ic r (prev_after prev (take (length p) s)) (drop (length p) s) of
              Some (g, rest) \<Rightarrow> Some (take (length p) s, rest)
            | None \<Rightarrow> re_match ic (Grp_Alt ps # r) prev s)
      else re_match ic (Grp_Alt ps # r) prev s)"
| "re_match ic (Space_Star # r) prev [] = re_match ic r prev []"
| "re_match ic (Space_Star # r) prev (c # cs) =
     (if isspace c
      then (case re_match ic (Space_Star # r) (Some c) cs of
              Some m \<Rightarrow> Some m
            | None \<Rightarrow> re_match ic r prev (c # cs))
      else re_match ic r prev (c # cs))"
| "re_match ic (Grp_Lazy_Any # r) prev s =
     (case re_match ic r prev s of
        Some (g, rest) \<Rightarrow> Some ([], rest)
      | None \<Rightarrow>
          (case s of
             [] \<Rightarrow> None
           | c # cs \<Rightarrow>
               (case re_match ic (Grp_Lazy_Any # r) (Some c) cs of
                  Some (g, rest) \<Rightarrow> Some (c # g, rest)
                | None \<Rightarrow> None)))"
| "re_match ic (Word_B # r) prev s = (if word_b prev s then re_match ic r prev s else None)"
  by pat_completeness auto

termination
  by (relation "measures
        [\<lambda>(ic, r, prev, s). length r,
         \<lambda>(ic, r, prev, s). (case r of Grp_Alt ps # _ \<Rightarrow> length ps | _ \<Rightarrow> 0),
         \<lambda>(ic, r, prev, s). length s]") auto

text \<open>\<open>re.search\<close>, as a truth value: some position of the subject admits a match.\<close>

fun re_search :: "bool \<Rightarrow> rx list \<Rightarrow> char option \<Rightarrow> string \<Rightarrow> bool" where
  "re_search ic r prev [] = (re_match ic r prev [] \<noteq> None)"
| "re_search ic r prev (c # cs) =
     (re_match ic r prev (c # cs) \<noteq> None \<or> re_search ic r (Some c) cs)"

text \<open>
  \<open>re.findall\<close> for a pattern with one group: the group texts of the successive
  non-overlapping matches, leftmost first. The counter \<open>k\<close> is the number of characters
  still covered by the previous match.
\<close>

fun findall_aux :: "bool \<Rightarrow> rx list \<Rightarrow> nat \<Rightarrow> char option \<Rightarrow> string \<Rightarrow> string list" where
  "findall_aux ic r k prev [] =
     (if k = 0 then (case re_match ic r prev [] of Some (g, rest) \<Rightarrow> [g] | None \<Rightarrow> []) else [])"
| "findall_aux ic r (Suc k) prev (c # cs) = findall_aux ic r k (Some c) cs"
| "findall_aux ic r 0 prev (c # cs) =
     (case re_match ic r prev (c # cs) of
        Some (g, rest) \<Rightarrow> g # findall_aux ic r (length cs - length rest) (Some c) cs
      | None \<Rightarrow> findall_aux ic r 0 (Some c) cs)"

definition re_findall :: "bool \<Rightarrow> rx list \<Rightarrow> string \<Rightarrow> string list" where
  "re_findall ic r s = findall_aux ic r 0 None s"

subsection \<open>Replacement templates\<close>

datatype error =
    ValueError string
  | SecurityError string
  | ReError
  | IndexError

datatype tpart = T_Chr char | T_Group nat

definition is_digit :: "char \<Rightarrow> bool" where
  "is_digit c = (let n = (of_char c :: nat) in 48 \<le> n \<and> n \<le> 57)"

definition is_octdigit :: "char \<Rightarrow> bool" where
  "is_octdigit c = (let n = (of_char c :: nat) in 48 \<le> n \<and> n \<le> 55)"

definition digit_val :: "char \<Rightarrow> nat" where
  "digit_val c = of_char c - 48"

definition is_ascii_letter :: "char \<Rightarrow> bool" where
  "is_ascii_letter c =
     (let n = (of_char c :: nat) in (65 \<le> n \<and> n \<le> 90) \<or> (97 \<le> n \<and> n \<le> 122))"

definition id_start :: "char \<Rightarrow> bool" where
  "id_start c =
     (let n = (of_char c :: nat)
      in (65 \<le> n \<and> n \<le> 90) \<or> n = 95 \<or> (97 \<le> n \<and> n \<le> 122) \<or> n = 170 \<or> n = 181
         \<or> n = 186 \<or> (192 \<le> n \<and> n \<le> 214) \<or> (216 \<le> n \<and> n \<le> 246) \<or> 248 \<le> n)"

definition id_continue :: "char \<Rightarrow> bool" where
  "id_continue c = (id_start c \<or> is_digit c \<or> (of_char c :: nat) = 183)"

definition isidentifier :: "string \<Rightarrow> bool" where
  "isidentifier s = (case s of [] \<Rightarrow> False | c # cs \<Rightarrow> id_start c \<and> list_all id_continue cs)"

definition dec_val :: "string \<Rightarrow> nat" where
  "dec_val s = foldl (\<lambda>v c. 10 * v + digit_val c) 0 s"

text \<open>The table \<open>ESCAPES\<close> of the template parser.\<close>

definition escapes :: "char \<Rightarrow> char option" where
  "escapes d =
     (if d = CHR ''a'' then Some (CHR 0x07)
      else if d = CHR ''b'' then Some (CHR 0x08)
      else if d = CHR ''f'' then Some (CHR 0x0C)
      else if d = CHR ''n'' then Some (CHR 0x0A)
      else if d = CHR ''r'' then Some (CHR 0x0D)
      else if d = CHR ''t'' then Some (CHR 0x09)
      else if d = CHR ''v'' then Some (CHR 0x0B)
      else if d = backslash then Some backslash
      else None)"

definition tcons :: "tpart \<Rightarrow> error + tpart list \<Rightarrow> error + tpart list" where
  "tcons x r = (case r of Inl e \<Rightarrow> Inl e | Inr t \<Rightarrow> Inr (x # t))"

definition addgroup :: "nat \<Rightarrow> nat \<Rightarrow> error + tpart list \<Rightarrow> error + tpart list" where
  "addgroup groups index r = (if index > groups then Inl ReError else tcons (T_Group index) r)"

text \<open>
  The string that \<open>re.sub\<close> receives as \<open>repl\<close> is a template: \<open>re\<close> parses its backslash
  escapes before any matching is done (\<open>parse_template\<close> of the standard library, for a
  pattern with \<open>groups\<close> groups and no named group). An unknown escape of an ASCII
  letter, a dangling backslash and a reference to a group the pattern does not have
  raise \<open>re.error\<close>; a reference by name raises \<open>IndexError\<close>. A group name that is
  neither an identifier nor a string of ASCII digits is an error, as it is from
  Python 3.12 on.
\<close>

fun parse_template :: "nat \<Rightarrow> string \<Rightarrow> error + tpart list" where
  "parse_template groups [] = Inr []"
| "parse_template groups [c] = (if c = backslash then Inl ReError else Inr [T_Chr c])"
| "parse_template groups (c # d # s) =
     (if c \<noteq> backslash then tcons (T_Chr c) (parse_template groups (d # s))
      else if d = CHR ''g'' then
        (case s of
           [] \<Rightarrow> Inl ReError
         | l # s1 \<Rightarrow>
             if l \<noteq> CHR ''<'' \<or> CHR ''>'' \<notin> set s1 then Inl ReError
             else
               (let name = takeWhile (\<lambda>x. x \<noteq> CHR ''>'') s1
                in if name = [] then Inl ReError
                   else if isidentifier name then Inl IndexError
                   else if list_all is_digit name
                   then addgroup groups (dec_val name)
                          (parse_template groups (drop (Suc (length name)) s1))
                   else Inl ReError))
      else if d = CHR ''0'' then
        (case s of
           [] \<Rightarrow> Inr [T_Chr (char_of (0 :: nat))]
         | o1 # s1 \<Rightarrow>
             if is_octdigit o1
             then (case s1 of
                     [] \<Rightarrow> Inr [T_Chr (char_of (digit_val o1))]
                   | o2 # s2 \<Rightarrow>
                       if is_octdigit o2
                       then tcons (T_Chr (char_of ((8 * digit_val o1 + digit_val o2) mod 256)))
                              (parse_template groups s2)
                       else tcons (T_Chr (char_of (digit_val o1))) (parse_template groups s1))
             else tcons (T_Chr (char_of (0 :: nat))) (parse_template groups s))
      else if is_digit d then
        (case s of
           [] \<Rightarrow> addgroup groups (digit_val d) (Inr [])
         | e # s1 \<Rightarrow>
             if is_digit e
             then (case s1 of
                     [] \<Rightarrow> addgroup groups (10 * digit_val d + digit_val e) (Inr [])
                   | f # s2 \<Rightarrow>
                       if is_octdigit d \<and> is_octdigit e \<and> is_octdigit f
                       then (let v = 64 * digit_val d + 8 * digit_val e + digit_val f
                             in if v > 255 then Inl ReError
                                else tcons (T_Chr (char_of v)) (parse_template groups s2))
                       else addgroup groups (10 * digit_val d + digit_val e)
                              (parse_template groups s1))
             else addgroup groups (digit_val d) (parse_template groups s))
      else
        (case escapes d of
           Some ch \<Rightarrow> tcons (T_Chr ch) (parse_template groups s)
         | None \<Rightarrow>
             if is_ascii_letter d then Inl ReError
             else tcons (T_Chr c) (tcons (T_Chr d) (parse_template groups s))))"

declare parse_template.simps [simp del]

text \<open>The expansion of a parsed template for one match: \<open>g0\<close> is the whole match.\<close>

definition expand_template :: "tpart list \<Rightarrow> string \<Rightarrow> string \<Rightarrow> string" where
  "expand_template t g0 g1 =
     concat (map (\<lambda>p. case p of T_Chr c \<Rightarrow> [c] | T_Group n \<Rightarrow> (if n = 0 then g0 else g1)) t)"

definition rx_groups :: "rx list \<Rightarrow> nat" where
  "rx_groups r =
     length (filter (\<lambda>x. case x of Grp_Alt _ \<Rightarrow> True | Grp_Lazy_Any \<Rightarrow> True | _ \<Rightarrow> False) r)"

text \<open>
  \<open>re.sub\<close>: every non-overlapping match, leftmost first, is replaced by the expanded
  template; the text between matches is kept.
\<close>

fun sub_aux :: "bool \<Rightarrow> rx list \<Rightarrow> tpart list \<Rightarrow> nat \<Rightarrow> char option \<Rightarrow> string \<Rightarrow> string" where
  "sub_aux ic r t k prev [] =
     (if k = 0
      then (case re_match ic r prev [] of Some (g, rest) \<Rightarrow> expand_template t [] g | None \<Rightarrow> [])
      else [])"
| "sub_aux ic r t (Suc k) prev (c # cs) = sub_aux ic r t k (Some c) cs"
| "sub_aux ic r t 0 prev (c # cs) =
     (case re_match ic r prev (c # cs) of
        Some (g, rest) \<Rightarrow>
          (if length rest \<le> length cs
           then expand_template t (take (Suc (length cs) - length rest) (c # cs)) g
                @ sub_aux ic r t (length cs - length rest) (Some c) cs
           else expand_template t [] g @ c # sub_aux ic r t 0 (Some c) cs)
      | None \<Rightarrow> c # sub_aux ic r t 0 (Some c) cs)"

definition re_sub :: "bool \<Rightarrow> rx list \<Rightarrow> string \<Rightarrow> string \<Rightarrow> error + string" where
  "re_sub ic r repl s =
     (case parse_template (rx_groups r) repl of
        Inl e \<Rightarrow> Inl e
      | Inr t \<Rightarrow> Inr (sub_aux ic r t 0 None s))"

section \<open>The application state\<close>

text \<open>
  The signals of \<open>WorkerSignals\<close>, and the part of the window the verified functions read
  and write. Widgets are modelled by the values they hold. The log widget holds the
  messages without their time stamps. \<open>spawned\<close> lists the commands for which
  \<open>subprocess.Popen\<close> started a process, \<open>files\<close> the files written (path and
  content), \<open>emitted\<close> the signals emitted so far, \<open>api_calls\<close> the number of calls of
  \<open>generate_content\<close> made so far, \<open>code_update\<close> the text last handed to
  \<open>animate_code_update\<close> (the timer-driven animation itself is not modelled).
\<close>

datatype signal =
    Sig_Result string
  | Sig_Error string
  | Sig_Ui_Update bool
  | Sig_Code_Modification string

record app =
  text_entry :: string
  selected_model :: string
  queue :: "string list"
  spawned :: "string list"
  files :: "(string \<times> string) list"
  live_preview :: "string option"
  code_update :: "string option"
  output_area :: string
  log_widget :: "string list"
  emitted :: "signal list"
  api_calls :: nat
  generate_btn_enabled :: bool
  generate_btn_text :: string
  text_entry_readonly :: bool
  apply_changes_btn_enabled :: bool
  error_boxes :: "string list"

text \<open>
  What the program gets from outside: the behaviour of a child process (for the
  \<open>k\<close>-th process started, running \<open>command\<close>, \<open>popen env k command i\<close> is \<open>Some line\<close>
  when at the \<open>i\<close>-th turn of the reading loop the process is still running and
  \<open>readline\<close> returns \<open>line\<close>, and \<open>None\<close> when the process has exited), the outcome of
  the \<open>n\<close>-th call of the Gemini Pro model (\<open>Inr\<close> the response text, \<open>Inl\<close> the message
  of the exception), and the path of the user's Desktop directory with the path
  separator. Failures of the operating system itself (a file that cannot be opened, a
  shell that cannot be started) are not modelled.
\<close>

record env =
  popen :: "nat \<Rightarrow> string \<Rightarrow> nat \<Rightarrow> string option"
  gemini :: "nat \<Rightarrow> string \<Rightarrow> string + string"
  desktop_path :: string
  path_sep :: string

definition activity_log :: "string \<Rightarrow> app \<Rightarrow> app" where
  "activity_log message st = st\<lparr>log_widget := log_widget st @ [message]\<rparr>"

definition emit :: "signal \<Rightarrow> app \<Rightarrow> app" where
  "emit sig st = st\<lparr>emitted := emitted st @ [sig]\<rparr>"

definition queue_put :: "string \<Rightarrow> app \<Rightarrow> app" where
  "queue_put line st = st\<lparr>queue := queue st @ [line]\<rparr>"

section \<open>The command gate and the executor\<close>

definition unsafe_patterns :: "string list" where
  "unsafe_patterns = [''rm '', ''del '', ''format '', ''chmod'', ''sudo'']"

text \<open>
  The loop \<open>while proc.poll() is None\<close> of \<open>execute_safe_command\<close>: it ends when the
  process exits and runs forever when it never does, which is the value \<open>None\<close>.
\<close>

partial_function (option) read_loop ::
  "(nat \<Rightarrow> string option) \<Rightarrow> nat \<Rightarrow> string list \<Rightarrow> string list option" where
  "read_loop proc i q =
     (case proc i of
        None \<Rightarrow> Some q
      | Some line \<Rightarrow> read_loop proc (Suc i) (if line \<noteq> [] then q @ [py_strip line] else q))"

definition execute_safe_command :: "env \<Rightarrow> string \<Rightarrow> app \<Rightarrow> ((error + unit) \<times> app) option" where
  "execute_safe_command env command st =
     (if list_ex (\<lambda>p. py_in p command) unsafe_patterns
      then Some (Inl (SecurityError ''Blocked potentially dangerous command''), st)
      else
        (let st1 = queue_put (''$ '' @ command) st;
             proc = popen env (length (spawned st1)) command;
             st2 = st1\<lparr>spawned := spawned st1 @ [command]\<rparr>
         in case read_loop proc 0 (queue st2) of
              None \<Rightarrow> None
            | Some q \<Rightarrow> Some (Inr (), st2\<lparr>queue := q\<rparr>)))"

section \<open>Input validation\<close>

definition sensitive_pattern :: "rx list" where
  "sensitive_pattern = [Word_B, Grp_Alt [''password'', ''secret'', ''key''], Word_B]"

definition validate_input :: "app \<Rightarrow> (error + unit) \<times> app" where
  "validate_input st =
     (let text = py_strip (text_entry st)
      in if length text < 10
         then (Inl (ValueError ''Query too short (minimum 10 characters)''), st)
         else if length text > 5000
         then (Inl (ValueError ''Query too long (maximum 5000 characters)''), st)
         else if re_search True sensitive_pattern None text
         then (Inl (SecurityError ''Query contains sensitive keywords''), st)
         else (Inr (), activity_log ''Input validated.'' st))"

subsection \<open>The prompt as a Unicode string\<close>

text \<open>
  The prompt field returns a Unicode string. The two length tests of \<open>validate_input\<close>
  count code points and do not depend on the alphabet, but the keyword search does: under
  \<open>re.IGNORECASE\<close> a letter of the pattern also matches the code points above 255 that
  fold to it, so that \<open>s\<close> matches U+017F (the long s) and \<open>k\<close> matches U+212A (the
  Kelvin sign). For \<open>validate_input\<close> the prompt is therefore also modelled as the list of
  its code points, and the matcher of the program's patterns is given over such lists.

  \<open>u_isspace\<close> is \<open>str.isspace\<close> on all code points, which is also what \<open>str.strip()\<close>
  removes. \<open>wide_fold\<close> lists the code points above 255 that \<open>re.IGNORECASE\<close> identifies
  with a code point below 256, each with the lower-case form of that code point: U+0130
  and U+0131 with i, U+017F with s, U+212A with k, U+039C and U+03BC with the micro sign,
  U+212B with the a with ring, U+1E9E with the sharp s, U+0178 with the y with diaeresis.
  The other word characters above 255 (the alphanumeric code points of the Unicode
  database of the interpreter) are the parameter \<open>alnum\<close>; the code points of
  \<open>wide_fold\<close> are letters, and no whitespace is a word character.
\<close>

definition u_isspace :: "nat \<Rightarrow> bool" where
  "u_isspace n =
     ((9 \<le> n \<and> n \<le> 13) \<or> (28 \<le> n \<and> n \<le> 32) \<or> n = 133 \<or> n = 160 \<or> n = 5760
      \<or> (8192 \<le> n \<and> n \<le> 8202) \<or> n = 8232 \<or> n = 8233 \<or> n = 8239 \<or> n = 8287
      \<or> n = 12288)"

definition u_strip :: "nat list \<Rightarrow> nat list" where
  "u_strip s = rev (dropWhile u_isspace (rev (dropWhile u_isspace s)))"

definition wide_fold :: "nat \<Rightarrow> nat option" where
  "wide_fold n =
     (if n = 304 \<or> n = 305 then Some 105
      else if n = 383 then Some 115
      else if n = 8490 then Some 107
      else if n = 924 \<or> n = 956 then Some 181
      else if n = 8491 then Some 229
      else if n = 7838 then Some 223
      else if n = 376 then Some 255
      else None)"

definition u_is_word :: "(nat \<Rightarrow> bool) \<Rightarrow> nat \<Rightarrow> bool" where
  "u_is_word alnum n =
     (if n < 256 then is_word (char_of n)
      else if wide_fold n = None then \<not> u_isspace n \<and> alnum n
      else True)"

text \<open>
  A character \<open>p\<close> of a pattern against a code point \<open>c\<close> of the subject. The patterns
  are those of the program text, whose characters lie below 256.
\<close>

definition u_chr_eq :: "bool \<Rightarrow> char \<Rightarrow> nat \<Rightarrow> bool" where
  "u_chr_eq ic p c =
     (if ic
      then (if c < 256 then py_lower_chr (char_of c) = py_lower_chr p
            else wide_fold c = Some (of_char (py_lower_chr p)))
      else c = of_char p)"

text \<open>
  The literal match, the word boundary and the backtracking matcher of the program's
  patterns, equation for equation as above, with a subject of code points.
\<close>

fun u_lit_match :: "bool \<Rightarrow> string \<Rightarrow> nat list \<Rightarrow> bool" where
  "u_lit_match ic [] s = True"
| "u_lit_match ic (p # ps) [] = False"
| "u_lit_match ic (p # ps) (c # cs) = (u_chr_eq ic p c \<and> u_lit_match ic ps cs)"

definition u_word_b :: "(nat \<Rightarrow> bool) \<Rightarrow> nat option \<Rightarrow> nat list \<Rightarrow> bool" where
  "u_word_b alnum prev s =
     ((case prev of None \<Rightarrow> False | Some c \<Rightarrow> u_is_word alnum c)
      \<noteq> (case s of [] \<Rightarrow> False | c # _ \<Rightarrow> u_is_word alnum c))"

definition u_prev_after :: "nat option \<Rightarrow> nat list \<Rightarrow> nat option" where
  "u_prev_after prev consumed = (if consumed = [] then prev else Some (last consumed))"

function (sequential) u_re_match ::
  "(nat \<Rightarrow> bool) \<Rightarrow> bool \<Rightarrow> rx list \<Rightarrow> nat option \<Rightarrow> nat list \<Rightarrow> (nat list \<times> nat list) option" where
  "u_re_match alnum ic [] prev s = Some ([], s)"
| "u_re_match alnum ic (Lit p # r) prev s =
     (if u_lit_match ic p s
      then u_re_match alnum ic r (u_prev_after prev (take (length p) s)) (drop (length p) s)
      else None)"
| "u_re_match alnum ic (Grp_Alt [] # r) prev s = None"
| "u_re_match alnum ic (Grp_Alt (p # ps) # r) prev s =
     (if u_lit_match ic p s
      then (case u_re_match alnum ic r (u_prev_after prev (take (length p) s)) (drop (length p) s) of
              Some (g, rest) \<Rightarrow> Some (take (length p) s, rest)
            | None \<Rightarrow> u_re_match alnum ic (Grp_Alt ps # r) prev s)
      else u_re_match alnum ic (Grp_Alt ps # r) prev s)"
| "u_re_match alnum ic (Space_Star # r) prev [] = u_re_match alnum ic r prev []"
| "u_re_match alnum ic (Space_Star # r) prev (c # cs) =
     (if u_isspace c
      then (case u_re_match alnum ic (Space_Star # r) (Some c) cs of
              Some m \<Rightarrow> Some m
            | None \<Rightarrow> u_re_match alnum ic r prev (c # cs))
      else u_re_match alnum ic r prev (c # cs))"
| "u_re_match alnum ic (Grp_Lazy_Any # r) prev s =
     (case u_re_match alnum ic r prev s of
        Some (g, rest) \<Rightarrow> Some ([], rest)
      | None \<Rightarrow>
          (case s of
             [] \<Rightarrow> None
           | c # cs \<Rightarrow>
               (case u_re_match alnum ic (Grp_Lazy_Any # r) (Some c) cs of
                  Some (g, rest) \<Rightarrow> Some (c # g, rest)
                | None \<Rightarrow> None)))"
| "u_re_match alnum ic (Word_B # r) prev s =
     (if u_word_b alnum prev s then u_re_match alnum ic r prev s else None)"
  by pat_completeness auto

termination
  by (relation "measures
        [\<lambda>(alnum, ic, r, prev, s). length r,
         \<lambda>(alnum, ic, r, prev, s). (case r of Grp_Alt ps # _ \<Rightarrow> length ps | _ \<Rightarrow> 0),
         \<lambda>(alnum, ic, r, prev, s). length s]") auto

fun u_re_search :: "(nat \<Rightarrow> bool) \<Rightarrow> bool \<Rightarrow> rx list \<Rightarrow> nat option \<Rightarrow> nat list \<Rightarrow> bool" where
  "u_re_search alnum ic r prev [] = (u_re_match alnum ic r prev [] \<noteq> None)"
| "u_re_search alnum ic r prev (c # cs) =
     (u_re_match alnum ic r prev (c # cs) \<noteq> None \<or> u_re_search alnum ic r (Some c) cs)"

text \<open>
  \<open>validate_input\<close>, where \<open>entry\<close> is the content of the prompt field as the list of
  its code points.
\<close>

definition validate_input_unicode :: "(nat \<Rightarrow> bool) \<Rightarrow> nat list \<Rightarrow> app \<Rightarrow> (error + unit) \<times> app" where
  "validate_input_unicode alnum entry st =
     (let text = u_strip entry
      in if length text < 10
         then (Inl (ValueError ''Query too short (minimum 10 characters)''), st)
         else if length text > 5000
         then (Inl (ValueError ''Query too long (maximum 5000 characters)''), st)
         else if u_re_search alnum True sensitive_pattern None text
         then (Inl (SecurityError ''Query contains sensitive keywords''), st)
         else (Inr (), activity_log ''Input validated.'' st))"

text \<open>The code points of a string of the 8-bit alphabet.\<close>

definition code_points :: "string \<Rightarrow> nat list" where
  "code_points s = map of_char s"

section \<open>Code blocks\<close>

definition fence_pattern :: "string \<Rightarrow> rx list" where
  "fence_pattern lang = [Lit (''```'' @ lang), Space_Star, Grp_Lazy_Any, Space_Star, Lit ''```'']"

text \<open>The dictionary is an association list in the insertion order of \<open>patterns\<close>.\<close>

definition extract_code_blocks :: "string \<Rightarrow> (string \<times> string list) list" where
  "extract_code_blocks text =
     map (\<lambda>lang. (lang, re_findall False (fence_pattern lang) text))
       [''python'', ''javascript'', ''html'', ''css'', ''bash'']"

text \<open>\<open>for block in blocks: code += block.strip() + "\n"\<close>\<close>

definition concat_blocks :: "string \<Rightarrow> string list \<Rightarrow> string" where
  "concat_blocks code blocks = foldl (\<lambda>acc block. acc @ py_strip block @ [nl]) code blocks"

definition code_path :: "env \<Rightarrow> nat \<Rightarrow> string \<Rightarrow> string" where
  "code_path env i ext = desktop_path env @ path_sep env @ ''code_'' @ str_nat (i + 1) @ ''.'' @ ext"

definition write_file :: "string \<Rightarrow> string \<Rightarrow> app \<Rightarrow> app" where
  "write_file file_path content st = st\<lparr>files := files st @ [(file_path, content)]\<rparr>"

text \<open>The inner loop of the \<open>python\<close>/\<open>bash\<close> branch; \<open>i\<close> is the index of \<open>enumerate\<close>.\<close>

fun run_blocks :: "env \<Rightarrow> string \<Rightarrow> nat \<Rightarrow> string list \<Rightarrow> app \<Rightarrow> ((error + unit) \<times> app) option" where
  "run_blocks env lang i [] st = Some (Inr (), st)"
| "run_blocks env lang i (block # blocks) st =
     (let ext = (if lang = ''python'' then ''py'' else ''sh'');
          file_path = code_path env i ext;
          st1 = write_file file_path (py_strip block) st;
          cmd = (if lang = ''python'' then ''python '' else ''bash '') @ [dquote] @ file_path @ [dquote]
      in case execute_safe_command env cmd st1 of
           None \<Rightarrow> None
         | Some (Inl e, st2) \<Rightarrow> Some (Inl e, st2)
         | Some (Inr u, st2) \<Rightarrow> run_blocks env lang (Suc i) blocks st2)"

text \<open>The inner loop of the last branch, for any other language tag.\<close>

fun write_blocks :: "env \<Rightarrow> string \<Rightarrow> nat \<Rightarrow> string list \<Rightarrow> app \<Rightarrow> app" where
  "write_blocks env lang i [] st = st"
| "write_blocks env lang i (block # blocks) st =
     (let file_path = code_path env i lang;
          st1 = write_file file_path (py_strip block) st
      in write_blocks env lang (Suc i) blocks
           (queue_put (py_upper lang @ '' file created: '' @ file_path) st1))"

record frags =
  html_code :: string
  css_code :: string
  js_code :: string

text \<open>
  The body of the loop \<open>for lang, blocks in code_blocks.items()\<close>, with its chain of
  \<open>if\<close>/\<open>elif\<close>/\<open>else\<close>, and the loop itself.
\<close>

definition lang_step ::
  "env \<Rightarrow> string \<Rightarrow> string list \<Rightarrow> frags \<Rightarrow> app \<Rightarrow> ((error + frags) \<times> app) option" where
  "lang_step env lang blocks fr st =
     (if lang = ''html''
      then Some (Inr (fr\<lparr>html_code := concat_blocks (html_code fr) blocks\<rparr>), st)
      else if lang = ''css''
      then Some (Inr (fr\<lparr>css_code := concat_blocks (css_code fr) blocks\<rparr>), st)
      else if lang = ''javascript''
      then Some (Inr (fr\<lparr>js_code := concat_blocks (js_code fr) blocks\<rparr>), st)
      else if lang \<in> set [''python'', ''bash'']
      then (case run_blocks env lang 0 blocks st of
              None \<Rightarrow> None
            | Some (Inl e, st1) \<Rightarrow> Some (Inl e, st1)
            | Some (Inr u, st1) \<Rightarrow> Some (Inr fr, st1))
      else Some (Inr fr, write_blocks env lang 0 blocks st))"

fun for_each_lang ::
  "env \<Rightarrow> (string \<times> string list) list \<Rightarrow> frags \<Rightarrow> app \<Rightarrow> ((error + frags) \<times> app) option" where
  "for_each_lang env [] fr st = Some (Inr fr, st)"
| "for_each_lang env (item # items) fr st =
     (case lang_step env (fst item) (snd item) fr st of
        None \<Rightarrow> None
      | Some (Inl e, st1) \<Rightarrow> Some (Inl e, st1)
      | Some (Inr fr1, st1) \<Rightarrow> for_each_lang env items fr1 st1)"

definition html_template :: "string \<Rightarrow> string \<Rightarrow> string \<Rightarrow> string" where
  "html_template css html js =
     ''<html>\<newline><head>\<newline><style>\<newline>'' @ css
     @ ''\<newline></style>\<newline></head>\<newline><body>\<newline>'' @ html
     @ ''\<newline><script>\<newline>'' @ js
     @ ''\<newline></script>\<newline></body>\<newline></html>''"

definition style_repl :: "string \<Rightarrow> string" where
  "style_repl css = ''<style>'' @ css @ ''</style>'' @ [backslash, CHR ''1'']"

definition script_repl :: "string \<Rightarrow> string" where
  "script_repl js = ''<script>'' @ js @ ''</script>'' @ [backslash, CHR ''1'']"

text \<open>
  The assembly of the preview document (the \<open>if html_code or css_code or js_code\<close> part
  of \<open>process_code_blocks\<close>, up to the value of \<open>combined_html\<close>): \<open>None\<close> when there is
  no web code, an error when \<open>re.sub\<close> raises.
\<close>

definition assemble_document :: "frags \<Rightarrow> error + string option" where
  "assemble_document fr =
     (if html_code fr \<noteq> [] \<or> css_code fr \<noteq> [] \<or> js_code fr \<noteq> []
      then
        (let html = (if html_code fr = [] then ''<div></div>'' else html_code fr)
         in if \<not> py_in ''<html'' (py_lower html)
            then Inr (Some (html_template (css_code fr) html (js_code fr)))
            else
              (case (if css_code fr \<noteq> []
                     then re_sub True [Grp_Alt [''</head>'']] (style_repl (css_code fr)) html
                     else Inr html) of
                 Inl e \<Rightarrow> Inl e
               | Inr with_css \<Rightarrow>
                   (case (if js_code fr \<noteq> []
                          then re_sub True [Grp_Alt [''</body>'']] (script_repl (js_code fr)) with_css
                          else Inr with_css) of
                      Inl e \<Rightarrow> Inl e
                    | Inr combined_html \<Rightarrow> Inr (Some combined_html))))
      else Inr None)"

definition process_code_blocks :: "env \<Rightarrow> string \<Rightarrow> app \<Rightarrow> ((error + unit) \<times> app) option" where
  "process_code_blocks env text st =
     (case for_each_lang env (extract_code_blocks text)
             \<lparr>html_code = [], css_code = [], js_code = []\<rparr> st of
        None \<Rightarrow> None
      | Some (Inl e, st1) \<Rightarrow> Some (Inl e, st1)
      | Some (Inr fr, st1) \<Rightarrow>
          (case assemble_document fr of
             Inl e \<Rightarrow> Some (Inl e, st1)
           | Inr None \<Rightarrow> Some (Inr (), st1)
           | Inr (Some combined_html) \<Rightarrow>
               Some (Inr (),
                 activity_log ''Code editor updated with generated web code.''
                   ((queue_put ''Live preview updated with web code.''
                      (st1\<lparr>live_preview := Some combined_html\<rparr>))
                    \<lparr>code_update := Some combined_html\<rparr>))))"

section \<open>The workers and the slots\<close>

definition call_gemini :: "env \<Rightarrow> string \<Rightarrow> app \<Rightarrow> (string + string) \<times> app" where
  "call_gemini env prompt st =
     (gemini env (api_calls st) prompt, st\<lparr>api_calls := Suc (api_calls st)\<rparr>)"

text \<open>
  \<open>generate_content_worker\<close>: the inner \<open>try\<close> (the call of the selected model), its
  \<open>except\<close> (the call of Gemini Pro again), the outer \<open>except\<close> (the error signal) and
  the \<open>finally\<close>. For a model other than Gemini Pro the inner \<open>try\<close> builds a string and
  calls nothing that raises.
\<close>

definition generate_content_worker :: "env \<Rightarrow> app \<Rightarrow> app" where
  "generate_content_worker env st =
     (let prompt = py_strip (text_entry st);
          model_used = selected_model st;
          (first, st1) =
            (if model_used = ''Gemini Pro'' then call_gemini env prompt st
             else (Inr (''Simulated output from '' @ model_used @ '' for prompt: '' @ prompt), st));
          (outcome, st2) =
            (case first of
               Inr output_text \<Rightarrow>
                 (Inr output_text,
                  activity_log (''Generated content using '' @ model_used @ ''.'') st1)
             | Inl primary_error \<Rightarrow>
                 call_gemini env prompt
                   (activity_log (model_used @ '' failed ('' @ primary_error
                      @ ''); falling back to Gemini Pro.'') st1));
          st3 =
            (case outcome of
               Inr output_text \<Rightarrow> emit (Sig_Result output_text) st2
             | Inl e \<Rightarrow> emit (Sig_Error (''API Error: '' @ e)) st2)
      in emit (Sig_Ui_Update True) st3)"

definition modify_prompt :: "string \<Rightarrow> string \<Rightarrow> string" where
  "modify_prompt instructions current_code =
     ''Please update the following code according to these instructions:\<newline>\<newline>Instructions:\<newline>''
     @ instructions @ ''\<newline>\<newline>Code:\<newline>'' @ current_code"

definition apply_code_changes_worker :: "env \<Rightarrow> string \<Rightarrow> string \<Rightarrow> app \<Rightarrow> app" where
  "apply_code_changes_worker env instructions current_code st =
     (case call_gemini env (modify_prompt instructions current_code) st of
        (Inl e, st1) \<Rightarrow> emit (Sig_Error (''Error modifying code: '' @ e)) st1
      | (Inr new_code, st1) \<Rightarrow> emit (Sig_Code_Modification new_code) st1)"

definition toggle_ui_state :: "bool \<Rightarrow> app \<Rightarrow> app" where
  "toggle_ui_state enabled st =
     st\<lparr>generate_btn_enabled := enabled,
        text_entry_readonly := \<not> enabled,
        generate_btn_text := (if \<not> enabled then ''Processing...'' else ''Generate'')\<rparr>"

definition show_error :: "string \<Rightarrow> app \<Rightarrow> app" where
  "show_error message st = st\<lparr>error_boxes := error_boxes st @ [message]\<rparr>"

definition handle_code_modification_result :: "string \<Rightarrow> app \<Rightarrow> app" where
  "handle_code_modification_result new_code st =
     activity_log ''Code editor updated with modifications.''
       (st\<lparr>code_update := Some new_code, apply_changes_btn_enabled := True\<rparr>)"

text \<open>
  \<open>handle_result\<close> shows the text and, when the display of the text is complete, calls
  \<open>process_code_blocks\<close> on it.
\<close>

definition handle_result :: "env \<Rightarrow> string \<Rightarrow> app \<Rightarrow> ((error + unit) \<times> app) option" where
  "handle_result env text st = process_code_blocks env text (st\<lparr>output_area := text\<rparr>)"

text \<open>The connections of \<open>init_workers\<close> and \<open>init_signals\<close>: the slot run for a signal.\<close>

fun slot :: "env \<Rightarrow> signal \<Rightarrow> app \<Rightarrow> ((error + unit) \<times> app) option" where
  "slot env (Sig_Result text) st = handle_result env text st"
| "slot env (Sig_Error message) st = Some (Inr (), show_error message st)"
| "slot env (Sig_Ui_Update enabled) st = Some (Inr (), toggle_ui_state enabled st)"
| "slot env (Sig_Code_Modification new_code) st =
     Some (Inr (), handle_code_modification_result new_code st)"

text \<open>
  The two entry points on the side of the window. The worker is run to its end at the
  point where it is submitted to the pool.
\<close>

definition str_error :: "error \<Rightarrow> string" where
  "str_error e =
     (case e of ValueError m \<Rightarrow> m | SecurityError m \<Rightarrow> m | ReError \<Rightarrow> ''re.error''
      | IndexError \<Rightarrow> ''IndexError'')"

definition safe_generate_content :: "env \<Rightarrow> app \<Rightarrow> app" where
  "safe_generate_content env st =
     (case validate_input st of
        (Inl e, st1) \<Rightarrow> emit (Sig_Error (str_error e)) st1
      | (Inr u, st1) \<Rightarrow> generate_content_worker env (toggle_ui_state False st1))"

definition apply_code_changes :: "env \<Rightarrow> string \<Rightarrow> string \<Rightarrow> app \<Rightarrow> app" where
  "apply_code_changes env edit_instructions current_code st =
     (let instructions = py_strip edit_instructions
      in if instructions = [] then st
         else apply_code_changes_worker env instructions current_code
                (st\<lparr>apply_changes_btn_enabled := False\<rparr>))"

section \<open>Notions of the specification\<close>

text \<open>
  The words of the specification for input validation, for a prompt of the 8-bit
  alphabet. \<open>whole_word w t\<close>: the text \<open>t\<close>
  contains the word \<open>w\<close> (given in lower case) as a whole word in some letter case,
  that is, an occurrence of \<open>w\<close> up to the case of its letters with no word character
  directly before it and none directly after it.
\<close>

definition is_ascii_lower :: "char \<Rightarrow> bool" where
  "is_ascii_lower c = (let n = (of_char c :: nat) in 97 \<le> n \<and> n \<le> 122)"

definition whole_word :: "string \<Rightarrow> string \<Rightarrow> bool" where
  "whole_word w t =
     (\<exists>pre mid post. t = pre @ mid @ post \<and> py_lower mid = w
        \<and> (pre = [] \<or> \<not> is_word (last pre)) \<and> (post = [] \<or> \<not> is_word (hd post)))"

definition sensitive :: "string \<Rightarrow> bool" where
  "sensitive t = (whole_word ''password'' t \<or> whole_word ''secret'' t \<or> whole_word ''key'' t)"

definition is_word_opt :: "char option \<Rightarrow> bool" where
  "is_word_opt prev = (case prev of None \<Rightarrow> False | Some c \<Rightarrow> is_word c)"

definition good_word :: "string \<Rightarrow> bool" where
  "good_word w = (w \<noteq> [] \<and> list_all is_ascii_lower w)"

text \<open>
  The number of occurrences of a string in a text, and the number of document wrapper
  tokens of a document: the occurrences of \<open><html\<close> in any letter case, which is what
  \<open>process_code_blocks\<close> itself tests for.
\<close>

fun count_sub :: "string \<Rightarrow> string \<Rightarrow> nat" where
  "count_sub p [] = (if p = [] then 1 else 0)"
| "count_sub p (c # cs) = (if prefix p (c # cs) then 1 else 0) + count_sub p cs"


text \<open>
  The blocks extracted for one language, and the three web fragments that the loop of
  \<open>process_code_blocks\<close> builds from a text.
\<close>

definition blocks_of :: "string \<Rightarrow> string \<Rightarrow> string list" where
  "blocks_of lang text = re_findall False (fence_pattern lang) text"

definition web_frags :: "string \<Rightarrow> frags" where
  "web_frags text =
     \<lparr>html_code = concat_blocks [] (blocks_of ''html'' text),
      css_code = concat_blocks [] (blocks_of ''css'' text),
      js_code = concat_blocks [] (blocks_of ''javascript'' text)\<rparr>"

text \<open>A string without its trailing whitespace.\<close>

definition rstrip :: "string \<Rightarrow> string" where
  "rstrip s = rev (dropWhile isspace (rev s))"

text \<open>
  The words of the specification for a prompt given by its code points.
  \<open>either_case p c\<close>: the code point \<open>c\<close> is the letter \<open>p\<close> in lower or in upper case.
  \<open>re_case p c\<close>: \<open>c\<close> is \<open>p\<close> in either case, or one of the further code points that
  \<open>re.IGNORECASE\<close> takes for \<open>p\<close>: U+017F for s, U+212A for k, U+0130 and U+0131 for i.
  \<open>whole_word_in form alnum w t\<close>: the text \<open>t\<close> contains the word \<open>w\<close>, each letter in
  one of the forms that \<open>form\<close> allows, with no word character directly before it and
  none directly after it.
\<close>

definition either_case :: "char \<Rightarrow> nat \<Rightarrow> bool" where
  "either_case p c = (c = of_char p \<or> c = of_char (py_upper_chr p))"

definition re_case :: "char \<Rightarrow> nat \<Rightarrow> bool" where
  "re_case p c =
     (either_case p c \<or> (p = CHR ''s'' \<and> c = 383) \<or> (p = CHR ''k'' \<and> c = 8490)
      \<or> (p = CHR ''i'' \<and> (c = 304 \<or> c = 305)))"

definition whole_word_in :: "(char \<Rightarrow> nat \<Rightarrow> bool) \<Rightarrow> (nat \<Rightarrow> bool) \<Rightarrow> string \<Rightarrow> nat list \<Rightarrow> bool" where
  "whole_word_in form alnum w t =
     (\<exists>pre mid post. t = pre @ mid @ post \<and> list_all2 form w mid
        \<and> (pre = [] \<or> \<not> u_is_word alnum (last pre))
        \<and> (post = [] \<or> \<not> u_is_word alnum (hd post)))"

definition sensitive_in :: "(char \<Rightarrow> nat \<Rightarrow> bool) \<Rightarrow> (nat \<Rightarrow> bool) \<Rightarrow> nat list \<Rightarrow> bool" where
  "sensitive_in form alnum t =
     (whole_word_in form alnum ''password'' t \<or> whole_word_in form alnum ''secret'' t
      \<or> whole_word_in form alnum ''key'' t)"

text \<open>
  The same notion as a scan of the text from left to right: \<open>at_word\<close> tests for the
  word at the head of the text, \<open>prev\<close> being the code point before it.
\<close>

definition u_word_opt :: "(nat \<Rightarrow> bool) \<Rightarrow> nat option \<Rightarrow> bool" where
  "u_word_opt alnum prev = (case prev of None \<Rightarrow> False | Some c \<Rightarrow> u_is_word alnum c)"

fun form_match :: "(char \<Rightarrow> nat \<Rightarrow> bool) \<Rightarrow> string \<Rightarrow> nat list \<Rightarrow> bool" where
  "form_match form [] s = True"
| "form_match form (p # ps) [] = False"
| "form_match form (p # ps) (c # cs) = (form p c \<and> form_match form ps cs)"

definition at_word ::
  "(char \<Rightarrow> nat \<Rightarrow> bool) \<Rightarrow> (nat \<Rightarrow> bool) \<Rightarrow> string \<Rightarrow> nat option \<Rightarrow> nat list \<Rightarrow> bool" where
  "at_word form alnum w prev t =
     (\<not> u_word_opt alnum prev \<and> form_match form w t
      \<and> (case drop (length w) t of [] \<Rightarrow> True | c # _ \<Rightarrow> \<not> u_is_word alnum c))"

fun scan_word ::
  "(char \<Rightarrow> nat \<Rightarrow> bool) \<Rightarrow> (nat \<Rightarrow> bool) \<Rightarrow> string \<Rightarrow> nat option \<Rightarrow> nat list \<Rightarrow> bool" where
  "scan_word form alnum w prev [] = at_word form alnum w prev []"
| "scan_word form alnum w prev (c # cs) =
     (at_word form alnum w prev (c # cs) \<or> scan_word form alnum w (Some c) cs)"



section \<open>Concrete inputs\<close>

text \<open>
  An idle window, and surroundings in which every child process has already exited when
  it is first polled and every call of the model answers \<open>ok\<close>.
\<close>

definition st0 :: app where
  "st0 =
     \<lparr>text_entry = [], selected_model = ''Gemini Pro'', queue = [], spawned = [], files = [],
      live_preview = None, code_update = None, output_area = [], log_widget = [],
      emitted = [], api_calls = 0, generate_btn_enabled = True,
      generate_btn_text = ''Generate'', text_entry_readonly = False,
      apply_changes_btn_enabled = True, error_boxes = []\<rparr>"

definition env0 :: env where
  "env0 =
     \<lparr>popen = (\<lambda>k command i. None), gemini = (\<lambda>n prompt. Inr ''ok''),
      desktop_path = ''/home/user/Desktop'', path_sep = ''/''\<rparr>"

text \<open>The idle window with a given text in the prompt field.\<close>

definition with_prompt :: "string \<Rightarrow> app" where
  "with_prompt t = st0\<lparr>text_entry := t\<rparr>"

text \<open>
  Surroundings in which the first call of the model raises and every later call answers,
  and surroundings in which every call raises.
\<close>

definition env_retry :: env where
  "env_retry = env0\<lparr>gemini := (\<lambda>n prompt. if n = 0 then Inl ''boom'' else Inr ''ok'')\<rparr>"

definition env_down :: env where
  "env_down = env0\<lparr>gemini := (\<lambda>n prompt. Inl ''boom'')\<rparr>"

text \<open>
  The window after a code modification was requested and the call of the model raised.
\<close>

definition after_failed_modification :: app where
  "after_failed_modification = apply_code_changes env_down ''make it blue'' ''<p>x</p>'' st0"

text \<open>The example of the specification and the document expected for it.\<close>

definition example_text :: string where
  "example_text = ''```html\<newline><p>hi</p>\<newline>```\<newline>```css\<newline>body{color:red}\<newline>```''"

definition example_doc :: string where
  "example_doc = ''<html>\<newline><head>\<newline><style>\<newline>body{color:red}\<newline>\<newline></style>\<newline></head>\<newline><body>\<newline><p>hi</p>\<newline>\<newline><script>\<newline>\<newline></script>\<newline></body>\<newline></html>''"

text \<open>
  Texts with a block of an unrecognized tag, with two full documents, and with a full
  document and a style sheet that contains a backslash.
\<close>

definition ruby_text :: string where
  "ruby_text = ''```ruby\<newline>puts 1\<newline>```''"

definition python3_text :: string where
  "python3_text = ''```python3\<newline>print(1)\<newline>```''"


definition icon_css :: string where
  "icon_css = ''i:before{content:'' @ [dquote, backslash] @ ''e900'' @ [dquote] @ ''}''"

definition quote_css :: string where
  "quote_css = ''q:before{content:'' @ [dquote, backslash] @ ''201C'' @ [dquote] @ ''}''"

definition page_html :: string where
  "page_html = ''<html><head></head><body></body></html>''"

definition page_with :: "string \<Rightarrow> string" where
  "page_with css = ''```html\<newline>'' @ page_html @ ''\<newline>```\<newline>```css\<newline>'' @ css @ ''\<newline>```''"

text \<open>
  A text whose only fence stands in the middle of a line, and a text with one block
  between other words.
\<close>

definition midline_text :: string where
  "midline_text = ''see ```css p{}```''"

definition spaced_text :: string where
  "spaced_text = ''a ```css p{} ``` b''"

text \<open>
  Two prompts with a code point above 255: one with the long s U+017F where the word
  \<open>secret\<close> has its s, one with the Kelvin sign U+212A where the word \<open>Key\<close> has its K.
\<close>

definition long_s_prompt :: "nat list" where
  "long_s_prompt = code_points ''please tell me a '' @ [383] @ code_points ''ecret now''"

definition kelvin_prompt :: "nat list" where
  "kelvin_prompt = code_points ''where is the '' @ [8490] @ code_points ''ey kept''"

text \<open>
  A table of the word characters above 255 that holds the Greek capital and small
  letters and no other code point.
\<close>

definition greek_alnum :: "nat \<Rightarrow> bool" where
  "greek_alnum n = ((913 \<le> n \<and> n \<le> 929) \<or> (931 \<le> n \<and> n \<le> 937) \<or> (945 \<le> n \<and> n \<le> 969))"


section \<open>Verified properties\<close>

subsection \<open>The command gate\<close>

lemma py_in_sublist: "py_in p s = sublist p s"
  by (induction s) (simp_all add: sublist_Cons_right)

lemma unsafe_iff:
  "list_ex (\<lambda>p. py_in p command) unsafe_patterns =
     (sublist ''rm '' command \<or> sublist ''del '' command \<or> sublist ''format '' command
      \<or> sublist ''chmod'' command \<or> sublist ''sudo'' command)"
  by (simp add: unsafe_patterns_def py_in_sublist)

lemma read_loop_exits: "proc (i + n) = None \<Longrightarrow> \<exists>q'. read_loop proc i q = Some q'"
proof (induction n arbitrary: i q)
  case 0
  then show ?case by (subst read_loop.simps) simp
next
  case (Suc n)
  then have "proc (Suc i + n) = None" by simp
  from Suc.IH [OF this] show ?case
    by (subst read_loop.simps) (simp split: option.splits)
qed

text \<open>
  Claim C1. \<open>execute_safe_command\<close> raises \<open>SecurityError\<close> exactly when the command
  contains one of \<open>"rm "\<close>, \<open>"del "\<close>, \<open>"format "\<close>, \<open>"chmod"\<close>, \<open>"sudo"\<close> as a
  case-sensitive substring. It raises nothing else, and when it raises the state is the
  one it was called in: nothing was put on the queue and no process was started.
  \<open>"sudo rm -rf /"\<close> is rejected; \<open>"echo hello"\<close> never is, and it returns normally,
  with the process started, as soon as that process exits.
\<close>

theorem C1_command_gate:
  "((\<exists>msg st'. execute_safe_command env command st = Some (Inl (SecurityError msg), st'))
      = (sublist ''rm '' command \<or> sublist ''del '' command \<or> sublist ''format '' command
         \<or> sublist ''chmod'' command \<or> sublist ''sudo'' command))
   \<and> (\<forall>e st'. execute_safe_command env command st = Some (Inl e, st')
          \<longrightarrow> st' = st \<and> queue st' = queue st \<and> spawned st' = spawned st)
   \<and> (\<exists>msg. execute_safe_command env ''sudo rm -rf /'' st = Some (Inl (SecurityError msg), st))
   \<and> (\<forall>r. execute_safe_command env ''echo hello'' st = Some r
          \<longrightarrow> fst r = Inr () \<and> spawned (snd r) = spawned st @ [''echo hello''])
   \<and> ((\<exists>n. popen env (length (spawned st)) ''echo hello'' n = None)
          \<longrightarrow> (\<exists>st'. execute_safe_command env ''echo hello'' st = Some (Inr (), st')))"
proof -
  have a: "(\<exists>msg st'. execute_safe_command env command st = Some (Inl (SecurityError msg), st'))
      = (sublist ''rm '' command \<or> sublist ''del '' command \<or> sublist ''format '' command
         \<or> sublist ''chmod'' command \<or> sublist ''sudo'' command)"
    unfolding unsafe_iff [symmetric]
    by (auto simp: execute_safe_command_def Let_def split: option.splits)
  have b: "\<forall>e st'. execute_safe_command env command st = Some (Inl e, st')
          \<longrightarrow> st' = st \<and> queue st' = queue st \<and> spawned st' = spawned st"
    by (auto simp: execute_safe_command_def Let_def split: option.splits if_splits)
  have c: "\<exists>msg. execute_safe_command env ''sudo rm -rf /'' st = Some (Inl (SecurityError msg), st)"
    by (simp add: execute_safe_command_def unsafe_patterns_def)
  have d: "\<forall>r. execute_safe_command env ''echo hello'' st = Some r
          \<longrightarrow> fst r = Inr () \<and> spawned (snd r) = spawned st @ [''echo hello'']"
    by (auto simp: execute_safe_command_def unsafe_patterns_def Let_def queue_put_def
          split: option.splits)
  have e: "(\<exists>n. popen env (length (spawned st)) ''echo hello'' n = None)
          \<longrightarrow> (\<exists>st'. execute_safe_command env ''echo hello'' st = Some (Inr (), st'))"
  proof
    assume "\<exists>n. popen env (length (spawned st)) ''echo hello'' n = None"
    then obtain n where "popen env (length (spawned st)) ''echo hello'' (0 + n) = None" by auto
    from read_loop_exits [of "popen env (length (spawned st)) ''echo hello''" 0 n, OF this]
    obtain q' where "read_loop (popen env (length (spawned st)) ''echo hello'') 0
        (queue st @ [''$ echo hello'']) = Some q'" by blast
    then show "\<exists>st'. execute_safe_command env ''echo hello'' st = Some (Inr (), st')"
      by (simp add: execute_safe_command_def unsafe_patterns_def Let_def queue_put_def)
  qed
  from a b c d e show ?thesis by blast
qed

theorem C1_command_gate_witness:
  "execute_safe_command env0 ''sudo rm -rf /'' st0
     = Some (Inl (SecurityError ''Blocked potentially dangerous command''), st0)
   \<and> (sublist ''rm '' ''sudo rm -rf /'' \<or> sublist ''del '' ''sudo rm -rf /''
        \<or> sublist ''format '' ''sudo rm -rf /'' \<or> sublist ''chmod'' ''sudo rm -rf /''
        \<or> sublist ''sudo'' ''sudo rm -rf /'')
   \<and> popen env0 (length (spawned st0)) ''echo hello'' 0 = None
   \<and> (\<exists>st'. execute_safe_command env0 ''echo hello'' st0 = Some (Inr (), st'))
   \<and> execute_safe_command env0 ''echo hello'' st0
       = Some (Inr (), st0\<lparr>queue := [''$ echo hello''], spawned := [''echo hello'']\<rparr>)"
proof -
  have p: "popen env0 (length (spawned st0)) ''echo hello'' 0 = None"
    by (simp add: env0_def)
  have r: "read_loop (\<lambda>i. None) 0 q = Some q" for q :: "string list"
    by (subst read_loop.simps) simp
  have x: "execute_safe_command env0 ''sudo rm -rf /'' st0
     = Some (Inl (SecurityError ''Blocked potentially dangerous command''), st0)"
    by (simp add: execute_safe_command_def unsafe_patterns_def)
  have ex: "\<exists>msg st'. execute_safe_command env0 ''sudo rm -rf /'' st0
      = Some (Inl (SecurityError msg), st')"
    by (rule exI, rule exI, rule x)
  have s: "sublist ''rm '' ''sudo rm -rf /'' \<or> sublist ''del '' ''sudo rm -rf /''
        \<or> sublist ''format '' ''sudo rm -rf /'' \<or> sublist ''chmod'' ''sudo rm -rf /''
        \<or> sublist ''sudo'' ''sudo rm -rf /''"
    by (rule iffD1 [OF conjunct1 [OF C1_command_gate [of env0 "''sudo rm -rf /''" st0]] ex])
  have y: "execute_safe_command env0 ''echo hello'' st0
      = Some (Inr (), st0\<lparr>queue := [''$ echo hello''], spawned := [''echo hello'']\<rparr>)"
    by (simp add: execute_safe_command_def unsafe_patterns_def Let_def queue_put_def env0_def
          st0_def r)
  have h: "\<exists>n. popen env0 (length (spawned st0)) ''echo hello'' n = None"
    by (rule exI, rule p)
  have t: "\<exists>st'. execute_safe_command env0 ''echo hello'' st0 = Some (Inr (), st')"
    by (rule mp [OF conjunct2 [OF conjunct2 [OF conjunct2 [OF conjunct2
          [OF C1_command_gate [of env0 "''echo hello''" st0]]]]] h])
  show ?thesis
    by (intro conjI) (rule x, rule s, rule p, rule t, rule y)
qed

subsection \<open>Input validation\<close>

lemma lower_word: "is_ascii_lower (py_lower_chr c) \<Longrightarrow> is_word c"
proof -
  assume a: "is_ascii_lower (py_lower_chr c)"
  define n where "n = (of_char c :: nat)"
  have lt: "n < 256" by (simp add: n_def)
  show ?thesis
  proof (cases "(65 \<le> n \<and> n \<le> 90) \<or> (192 \<le> n \<and> n \<le> 222 \<and> n \<noteq> 215)")
    case True
    then have "py_lower_chr c = char_of (n + 32)"
      by (simp add: py_lower_chr_def Let_def n_def [symmetric])
    with a have "97 \<le> (n + 32) mod 256 \<and> (n + 32) mod 256 \<le> 122"
      by (simp add: is_ascii_lower_def Let_def)
    moreover from True lt have "(n + 32) mod 256 = n + 32" by auto
    ultimately have "65 \<le> n \<and> n \<le> 90" by arith
    then show ?thesis by (simp add: is_word_def Let_def n_def [symmetric])
  next
    case False
    then have "py_lower_chr c = c"
      unfolding py_lower_chr_def Let_def n_def [symmetric] by (simp only: if_False)
    with a have "97 \<le> n \<and> n \<le> 122" by (simp add: is_ascii_lower_def Let_def n_def)
    then show ?thesis by (simp add: is_word_def Let_def n_def [symmetric])
  qed
qed

lemma space_not_word: "isspace c \<Longrightarrow> \<not> is_word c"
  by (auto simp: isspace_def is_word_def Let_def)

lemma lower_idem: "is_ascii_lower c \<Longrightarrow> py_lower_chr c = c"
  by (auto simp: is_ascii_lower_def py_lower_chr_def Let_def)

lemma lit_match_ci:
  "list_all is_ascii_lower w \<Longrightarrow>
     lit_match True w s = (length w \<le> length s \<and> py_lower (take (length w) s) = w)"
  by (induction True w s rule: lit_match.induct)
     (auto simp: chr_eq_def py_lower_def lower_idem)

lemma alt_match:
  "(re_match True [Grp_Alt ws, Word_B] prev s \<noteq> None)
     = (\<exists>w \<in> set ws. lit_match True w s
          \<and> word_b (prev_after prev (take (length w) s)) (drop (length w) s))"
  by (induction ws) (auto split: option.splits)

lemma sensitive_match:
  "(re_match True [Word_B, Grp_Alt ws, Word_B] prev s \<noteq> None)
     = (word_b prev s \<and> (\<exists>w \<in> set ws. lit_match True w s
          \<and> word_b (prev_after prev (take (length w) s)) (drop (length w) s)))"
  using alt_match [of ws prev s] by simp

lemma py_lower_word:
  assumes "list_all is_ascii_lower (py_lower mid)" "x \<in> set mid"
  shows "is_word x"
  using assms by (auto simp: py_lower_def list_all_iff intro: lower_word)

lemma head_match:
  assumes "good_word w"
  shows "(word_b prev s \<and> lit_match True w s
            \<and> word_b (prev_after prev (take (length w) s)) (drop (length w) s))
       = (\<exists>mid post. s = mid @ post \<and> py_lower mid = w \<and> \<not> is_word_opt prev
            \<and> (post = [] \<or> \<not> is_word (hd post)))"
proof
  assume l: "word_b prev s \<and> lit_match True w s
            \<and> word_b (prev_after prev (take (length w) s)) (drop (length w) s)"
  define mid where "mid = take (length w) s"
  define post where "post = drop (length w) s"
  from assms l have len: "length w \<le> length s" and low: "py_lower mid = w"
    by (simp_all add: lit_match_ci good_word_def mid_def)
  from assms len have ne: "mid \<noteq> []" by (auto simp: good_word_def mid_def)
  from assms low have w: "\<And>x. x \<in> set mid \<Longrightarrow> is_word x"
    by (auto simp: good_word_def intro: py_lower_word)
  from ne w have hw: "is_word (hd mid)" and lw: "is_word (last mid)" by simp_all
  have s: "s = mid @ post" by (simp add: mid_def post_def)
  from ne s have "hd s = hd mid" and sne: "s \<noteq> []" by auto
  with l hw have p: "\<not> is_word_opt prev"
    by (cases s) (auto simp: word_b_def is_word_opt_def)
  from l ne lw have "post = [] \<or> \<not> is_word (hd post)"
    by (cases post) (auto simp: word_b_def prev_after_def mid_def [symmetric] post_def [symmetric])
  with s low p show "\<exists>mid post. s = mid @ post \<and> py_lower mid = w \<and> \<not> is_word_opt prev
            \<and> (post = [] \<or> \<not> is_word (hd post))" by blast
next
  assume "\<exists>mid post. s = mid @ post \<and> py_lower mid = w \<and> \<not> is_word_opt prev
            \<and> (post = [] \<or> \<not> is_word (hd post))"
  then obtain mid post where s: "s = mid @ post" and low: "py_lower mid = w"
    and p: "\<not> is_word_opt prev" and q: "post = [] \<or> \<not> is_word (hd post)" by blast
  from low have len: "length mid = length w" by (auto simp: py_lower_def)
  with s have t: "take (length w) s = mid" and d: "drop (length w) s = post" by simp_all
  from assms len have ne: "mid \<noteq> []" by (auto simp: good_word_def)
  from assms low have w: "\<And>x. x \<in> set mid \<Longrightarrow> is_word x"
    by (auto simp: good_word_def intro: py_lower_word)
  from ne w have hw: "is_word (hd mid)" and lw: "is_word (last mid)" by simp_all
  from assms s len low have "lit_match True w s"
    by (simp add: lit_match_ci good_word_def)
  moreover from p hw ne s have "word_b prev s"
    by (cases mid) (auto simp: word_b_def is_word_opt_def)
  moreover from q lw ne have "word_b (prev_after prev mid) post"
    by (cases post) (auto simp: word_b_def prev_after_def)
  ultimately show "word_b prev s \<and> lit_match True w s
            \<and> word_b (prev_after prev (take (length w) s)) (drop (length w) s)"
    by (simp add: t d)
qed

lemma search_iff:
  assumes "\<forall>w \<in> set ws. good_word w"
  shows "re_search True [Word_B, Grp_Alt ws, Word_B] prev s
       = (\<exists>pre mid post. s = pre @ mid @ post \<and> py_lower mid \<in> set ws
            \<and> \<not> is_word_opt (prev_after prev pre)
            \<and> (post = [] \<or> \<not> is_word (hd post)))"
proof (induction s arbitrary: prev)
  case Nil
  from assms have "\<not> (\<exists>w \<in> set ws. lit_match True w [])"
    by (auto simp: good_word_def neq_Nil_conv)
  with sensitive_match [of ws prev "[]"]
  have "re_match True [Word_B, Grp_Alt ws, Word_B] prev [] = None" by blast
  with assms show ?case
    by (auto simp: good_word_def py_lower_def simp del: re_match.simps)
next
  case (Cons c cs)
  have here: "(re_match True [Word_B, Grp_Alt ws, Word_B] prev (c # cs) \<noteq> None)
      = (\<exists>mid post. c # cs = mid @ post \<and> py_lower mid \<in> set ws \<and> \<not> is_word_opt prev
            \<and> (post = [] \<or> \<not> is_word (hd post)))"
    unfolding sensitive_match using assms head_match [of _ prev "c # cs"] by blast
  have later: "re_search True [Word_B, Grp_Alt ws, Word_B] (Some c) cs
      = (\<exists>pre mid post. c # cs = (c # pre) @ mid @ post \<and> py_lower mid \<in> set ws
            \<and> \<not> is_word_opt (prev_after prev (c # pre))
            \<and> (post = [] \<or> \<not> is_word (hd post)))"
    unfolding Cons.IH by (simp add: prev_after_def)
  show ?case
  proof
    assume "re_search True [Word_B, Grp_Alt ws, Word_B] prev (c # cs)"
    then consider "re_match True [Word_B, Grp_Alt ws, Word_B] prev (c # cs) \<noteq> None"
      | "re_search True [Word_B, Grp_Alt ws, Word_B] (Some c) cs"
      by (auto simp del: re_match.simps)
    then show "\<exists>pre mid post. c # cs = pre @ mid @ post \<and> py_lower mid \<in> set ws
            \<and> \<not> is_word_opt (prev_after prev pre) \<and> (post = [] \<or> \<not> is_word (hd post))"
    proof cases
      case 1
      with here obtain mid post where "c # cs = [] @ mid @ post \<and> py_lower mid \<in> set ws
          \<and> \<not> is_word_opt (prev_after prev []) \<and> (post = [] \<or> \<not> is_word (hd post))"
        by (auto simp: prev_after_def)
      then show ?thesis by blast
    next
      case 2
      with later show ?thesis by blast
    qed
  next
    assume "\<exists>pre mid post. c # cs = pre @ mid @ post \<and> py_lower mid \<in> set ws
            \<and> \<not> is_word_opt (prev_after prev pre) \<and> (post = [] \<or> \<not> is_word (hd post))"
    then obtain pre mid post where s: "c # cs = pre @ mid @ post"
      and m: "py_lower mid \<in> set ws" and p: "\<not> is_word_opt (prev_after prev pre)"
      and q: "post = [] \<or> \<not> is_word (hd post)" by blast
    show "re_search True [Word_B, Grp_Alt ws, Word_B] prev (c # cs)"
    proof (cases pre)
      case Nil
      with s m p q have "\<exists>mid post. c # cs = mid @ post \<and> py_lower mid \<in> set ws
          \<and> \<not> is_word_opt prev \<and> (post = [] \<or> \<not> is_word (hd post))"
        by (intro exI [of _ mid] exI [of _ post]) (simp add: prev_after_def)
      with here have "re_match True [Word_B, Grp_Alt ws, Word_B] prev (c # cs) \<noteq> None"
        by blast
      then show ?thesis by (simp del: re_match.simps)
    next
      case (Cons a pre')
      with s have "a = c" by simp
      with Cons s m p q
      have "\<exists>pre mid post. c # cs = (c # pre) @ mid @ post \<and> py_lower mid \<in> set ws
            \<and> \<not> is_word_opt (prev_after prev (c # pre))
            \<and> (post = [] \<or> \<not> is_word (hd post))"
        by (intro exI [of _ pre'] exI [of _ mid] exI [of _ post]) simp
      with later have "re_search True [Word_B, Grp_Alt ws, Word_B] (Some c) cs" by blast
      then show ?thesis by (simp del: re_match.simps)
    qed
  qed
qed

lemma any_whole_word:
  "(\<exists>pre mid post. t = pre @ mid @ post \<and> py_lower mid \<in> set ws
        \<and> \<not> is_word_opt (prev_after None pre) \<and> (post = [] \<or> \<not> is_word (hd post)))
   = (\<exists>w \<in> set ws. whole_word w t)"
proof -
  have "\<not> is_word_opt (prev_after None pre) = (pre = [] \<or> \<not> is_word (last pre))"
    for pre by (simp add: prev_after_def is_word_opt_def)
  then show ?thesis unfolding whole_word_def by blast
qed

lemma search_sensitive_pattern: "re_search True sensitive_pattern None t = sensitive t"
proof -
  have g: "\<forall>w \<in> set [''password'', ''secret'', ''key'']. good_word w"
    by (simp add: good_word_def is_ascii_lower_def)
  have "re_search True sensitive_pattern None t
      = (\<exists>w \<in> set [''password'', ''secret'', ''key'']. whole_word w t)"
    unfolding sensitive_pattern_def search_iff [OF g] by (rule any_whole_word)
  also have "\<dots> = sensitive t"
    unfolding sensitive_def by (simp only: list.set bex_simps Un_insert_left insert_iff
        empty_iff bex_triv_one_point1 simp_thms)
  finally show ?thesis .
qed

lemma dropWhile_before:
  "xs \<noteq> [] \<Longrightarrow> \<not> P (hd xs) \<Longrightarrow> dropWhile P (pre @ xs) = dropWhile P pre @ xs"
  by (induction pre) (auto simp: neq_Nil_conv)

lemma strip_around:
  assumes "mid \<noteq> []" "\<not> isspace (hd mid)" "\<not> isspace (last mid)"
  shows "py_strip (pre @ mid @ post)
       = dropWhile isspace pre @ mid @ rev (dropWhile isspace (rev post))"
proof -
  from assms have a: "dropWhile isspace (pre @ mid @ post) = dropWhile isspace pre @ mid @ post"
    by (intro dropWhile_before) auto
  from assms have "dropWhile isspace (rev post @ (rev mid @ rev (dropWhile isspace pre)))
      = dropWhile isspace (rev post) @ (rev mid @ rev (dropWhile isspace pre))"
    by (intro dropWhile_before) (auto simp: hd_rev)
  with a show ?thesis by (simp add: py_strip_def)
qed

lemma strip_decomp:
  "\<exists>a b. t = a @ py_strip t @ b \<and> (\<forall>x \<in> set a. isspace x) \<and> (\<forall>x \<in> set b. isspace x)"
proof -
  define d where "d = dropWhile isspace t"
  define b where "b = rev (takeWhile isspace (rev d))"
  have "d = rev (dropWhile isspace (rev d)) @ rev (takeWhile isspace (rev d))"
    by (metis rev_append rev_rev_ident takeWhile_dropWhile_id)
  then have "d = py_strip t @ b" by (simp only: py_strip_def b_def d_def)
  then have "t = takeWhile isspace t @ py_strip t @ b"
    by (metis d_def takeWhile_dropWhile_id)
  moreover have "\<forall>x \<in> set (takeWhile isspace t). isspace x" by (auto dest: set_takeWhileD)
  moreover have "\<forall>x \<in> set b. isspace x" by (auto simp: b_def dest: set_takeWhileD)
  ultimately show ?thesis by blast
qed

lemma last_dropWhile: "dropWhile P xs \<noteq> [] \<Longrightarrow> last (dropWhile P xs) = last xs"
  by (induction xs) (auto split: if_splits)

lemma hd_rstrip:
  "rev (dropWhile P (rev xs)) \<noteq> [] \<Longrightarrow> hd (rev (dropWhile P (rev xs))) = hd xs"
  by (simp add: hd_rev last_dropWhile last_rev)

lemma whole_word_strip:
  assumes "good_word w"
  shows "whole_word w (py_strip t) = whole_word w t"
proof
  assume "whole_word w t"
  then obtain pre mid post where t: "t = pre @ mid @ post" and low: "py_lower mid = w"
    and p: "pre = [] \<or> \<not> is_word (last pre)" and q: "post = [] \<or> \<not> is_word (hd post)"
    unfolding whole_word_def by blast
  from assms low have ne: "mid \<noteq> []" by (auto simp: good_word_def py_lower_def)
  from assms low have "\<And>x. x \<in> set mid \<Longrightarrow> is_word x"
    by (auto simp: good_word_def intro: py_lower_word)
  with ne have "\<not> isspace (hd mid)" "\<not> isspace (last mid)"
    using space_not_word by (metis hd_in_set, metis last_in_set)
  from strip_around [OF ne this]
  have s: "py_strip t = dropWhile isspace pre @ mid @ rev (dropWhile isspace (rev post))"
    by (simp add: t)
  have "dropWhile isspace pre = [] \<or> \<not> is_word (last (dropWhile isspace pre))"
    using p by (cases "dropWhile isspace pre = []") (auto simp: last_dropWhile)
  moreover have "rev (dropWhile isspace (rev post)) = []
      \<or> \<not> is_word (hd (rev (dropWhile isspace (rev post))))"
    using q by (cases "rev (dropWhile isspace (rev post)) = []") (auto simp: hd_rstrip)
  ultimately show "whole_word w (py_strip t)"
    unfolding whole_word_def using s low by blast
next
  assume "whole_word w (py_strip t)"
  then obtain pre mid post where u: "py_strip t = pre @ mid @ post" and low: "py_lower mid = w"
    and p: "pre = [] \<or> \<not> is_word (last pre)" and q: "post = [] \<or> \<not> is_word (hd post)"
    unfolding whole_word_def by blast
  from strip_decomp [of t] obtain a b where t: "t = a @ py_strip t @ b"
    and a: "\<forall>x \<in> set a. isspace x" and b: "\<forall>x \<in> set b. isspace x" by blast
  from t u have t': "t = (a @ pre) @ mid @ (post @ b)" by simp
  have "a @ pre = [] \<or> \<not> is_word (last (a @ pre))"
  proof (cases "pre = []")
    case True
    with a show ?thesis by (cases "a = []") (auto dest: space_not_word)
  next
    case False
    with p show ?thesis by simp
  qed
  moreover have "post @ b = [] \<or> \<not> is_word (hd (post @ b))"
  proof (cases "post = []")
    case True
    with b show ?thesis by (cases "b = []") (auto dest: space_not_word)
  next
    case False
    with q show ?thesis by simp
  qed
  ultimately show "whole_word w t"
    unfolding whole_word_def using t' low by blast
qed

lemma sensitive_strip: "sensitive (py_strip t) = sensitive t"
  by (simp add: sensitive_def whole_word_strip good_word_def is_ascii_lower_def)

lemma sensitive_code: "sensitive t = re_search True sensitive_pattern None (py_strip t)"
  by (simp add: search_sensitive_pattern sensitive_strip)

text \<open>
  Claim C9. The length checks come first: a prompt whose trimmed length is below 10 or
  above 5000 raises \<open>ValueError\<close> and never \<open>SecurityError\<close>, whether or not it contains
  a sensitive word; \<open>SecurityError\<close> is only raised for a trimmed length within 10..5000
  (and a sensitive word).
\<close>

theorem C9_length_before_keywords:
  "(length (py_strip (text_entry st)) < 10 \<or> 5000 < length (py_strip (text_entry st))
      \<longrightarrow> (\<exists>m. validate_input st = (Inl (ValueError m), st))
          \<and> (\<forall>m. fst (validate_input st) \<noteq> Inl (SecurityError m)))
   \<and> (\<forall>m. fst (validate_input st) = Inl (SecurityError m)
          \<longrightarrow> 10 \<le> length (py_strip (text_entry st))
              \<and> length (py_strip (text_entry st)) \<le> 5000 \<and> sensitive (text_entry st))"
  by (auto simp: validate_input_def Let_def sensitive_code)

lemma text_entry_with_prompt: "text_entry (with_prompt t) = t"
  by (simp add: with_prompt_def)

lemma strip_secret: "py_strip ''my SECRET key'' = ''my SECRET key''"
  by (simp add: py_strip_def isspace_def)

lemma strip_key: "py_strip ''key'' = ''key''"
  by (simp add: py_strip_def isspace_def)

lemma sensitive_secret: "sensitive ''my SECRET key''"
  unfolding sensitive_code strip_secret sensitive_pattern_def
  by (simp add: word_b_def is_word_def chr_eq_def py_lower_chr_def prev_after_def)

theorem C9_length_before_keywords_witness:
  "length (py_strip (text_entry (with_prompt ''key''))) < 10
   \<and> sensitive (text_entry (with_prompt ''key''))
   \<and> (\<exists>m. validate_input (with_prompt ''key'') = (Inl (ValueError m), with_prompt ''key''))
   \<and> (\<forall>m. fst (validate_input (with_prompt ''key'')) \<noteq> Inl (SecurityError m))
   \<and> fst (validate_input (with_prompt ''my SECRET key''))
       = Inl (SecurityError ''Query contains sensitive keywords'')
   \<and> 10 \<le> length (py_strip (text_entry (with_prompt ''my SECRET key'')))
   \<and> length (py_strip (text_entry (with_prompt ''my SECRET key''))) \<le> 5000
   \<and> sensitive (text_entry (with_prompt ''my SECRET key''))"
proof -
  have a: "length (py_strip (text_entry (with_prompt ''key''))) < 10"
    by (simp add: text_entry_with_prompt strip_key)
  have k: "sensitive (text_entry (with_prompt ''key''))"
    unfolding text_entry_with_prompt sensitive_code strip_key sensitive_pattern_def
    by (simp add: word_b_def is_word_def chr_eq_def py_lower_chr_def prev_after_def)
  have s: "fst (validate_input (with_prompt ''my SECRET key''))
       = Inl (SecurityError ''Query contains sensitive keywords'')"
    unfolding validate_input_def Let_def text_entry_with_prompt strip_secret
    using sensitive_secret [unfolded sensitive_code strip_secret]
    by (simp del: re_search.simps)
  note a' = mp [OF conjunct1 [OF C9_length_before_keywords [of "with_prompt ''key''"]]
      disjI1 [OF a]]
  note s' = mp [OF spec [OF conjunct2 [OF C9_length_before_keywords
        [of "with_prompt ''my SECRET key''"]]] s]
  show ?thesis
    by (intro conjI a k conjunct1 [OF a'] conjunct2 [OF a'] s conjunct1 [OF s']
          conjunct1 [OF conjunct2 [OF s']] conjunct2 [OF conjunct2 [OF s']])
qed

subsection \<open>Input validation of a Unicode prompt\<close>

lemma form_match_iff:
  "form_match form w s = (length w \<le> length s \<and> list_all2 form w (take (length w) s))"
  by (induction form w s rule: form_match.induct) auto

lemma at_word_iff:
  "at_word form alnum w prev s
     = (\<exists>mid post. s = mid @ post \<and> list_all2 form w mid \<and> \<not> u_word_opt alnum prev
          \<and> (post = [] \<or> \<not> u_is_word alnum (hd post)))"
proof
  assume a: "at_word form alnum w prev s"
  define mid where "mid = take (length w) s"
  define post where "post = drop (length w) s"
  have s: "s = mid @ post" by (simp add: mid_def post_def)
  from a have "list_all2 form w mid" by (simp add: at_word_def form_match_iff mid_def)
  moreover from a have "\<not> u_word_opt alnum prev" by (simp add: at_word_def)
  moreover from a have "post = [] \<or> \<not> u_is_word alnum (hd post)"
    by (cases post) (simp_all add: at_word_def post_def [symmetric])
  ultimately show "\<exists>mid post. s = mid @ post \<and> list_all2 form w mid \<and> \<not> u_word_opt alnum prev
          \<and> (post = [] \<or> \<not> u_is_word alnum (hd post))" using s by blast
next
  assume "\<exists>mid post. s = mid @ post \<and> list_all2 form w mid \<and> \<not> u_word_opt alnum prev
          \<and> (post = [] \<or> \<not> u_is_word alnum (hd post))"
  then obtain mid post where s: "s = mid @ post" and m: "list_all2 form w mid"
    and p: "\<not> u_word_opt alnum prev" and q: "post = [] \<or> \<not> u_is_word alnum (hd post)" by blast
  from m have len: "length mid = length w" by (simp add: list_all2_lengthD)
  with s have t: "take (length w) s = mid" and d: "drop (length w) s = post" by simp_all
  from m len s have "form_match form w s" by (simp add: form_match_iff)
  with p q show "at_word form alnum w prev s"
    by (cases post) (simp_all add: at_word_def d)
qed

lemma scan_word_iff:
  "scan_word form alnum w prev s
     = (\<exists>pre mid post. s = pre @ mid @ post \<and> list_all2 form w mid
          \<and> \<not> u_word_opt alnum (u_prev_after prev pre)
          \<and> (post = [] \<or> \<not> u_is_word alnum (hd post)))"
proof (induction s arbitrary: prev)
  case Nil
  show ?case by (simp add: at_word_iff u_prev_after_def)
next
  case (Cons c cs)
  have later: "scan_word form alnum w (Some c) cs
      = (\<exists>pre mid post. c # cs = (c # pre) @ mid @ post \<and> list_all2 form w mid
            \<and> \<not> u_word_opt alnum (u_prev_after prev (c # pre))
            \<and> (post = [] \<or> \<not> u_is_word alnum (hd post)))"
    unfolding Cons.IH by (simp add: u_prev_after_def)
  show ?case
  proof
    assume "scan_word form alnum w prev (c # cs)"
    then consider "at_word form alnum w prev (c # cs)" | "scan_word form alnum w (Some c) cs"
      by auto
    then show "\<exists>pre mid post. c # cs = pre @ mid @ post \<and> list_all2 form w mid
            \<and> \<not> u_word_opt alnum (u_prev_after prev pre)
            \<and> (post = [] \<or> \<not> u_is_word alnum (hd post))"
    proof cases
      case 1
      then obtain mid post where "c # cs = [] @ mid @ post \<and> list_all2 form w mid
          \<and> \<not> u_word_opt alnum (u_prev_after prev [])
          \<and> (post = [] \<or> \<not> u_is_word alnum (hd post))"
        unfolding at_word_iff by (auto simp: u_prev_after_def)
      then show ?thesis by blast
    next
      case 2
      with later show ?thesis by blast
    qed
  next
    assume "\<exists>pre mid post. c # cs = pre @ mid @ post \<and> list_all2 form w mid
            \<and> \<not> u_word_opt alnum (u_prev_after prev pre)
            \<and> (post = [] \<or> \<not> u_is_word alnum (hd post))"
    then obtain pre mid post where s: "c # cs = pre @ mid @ post"
      and m: "list_all2 form w mid" and p: "\<not> u_word_opt alnum (u_prev_after prev pre)"
      and q: "post = [] \<or> \<not> u_is_word alnum (hd post)" by blast
    show "scan_word form alnum w prev (c # cs)"
    proof (cases pre)
      case Nil
      with s m p q have "\<exists>mid post. c # cs = mid @ post \<and> list_all2 form w mid
          \<and> \<not> u_word_opt alnum prev \<and> (post = [] \<or> \<not> u_is_word alnum (hd post))"
        by (intro exI [of _ mid] exI [of _ post]) (simp add: u_prev_after_def)
      then have "at_word form alnum w prev (c # cs)" unfolding at_word_iff .
      then show ?thesis by simp
    next
      case (Cons a pre')
      with s have "a = c" by simp
      with Cons s m p q
      have "\<exists>pre mid post. c # cs = (c # pre) @ mid @ post \<and> list_all2 form w mid
            \<and> \<not> u_word_opt alnum (u_prev_after prev (c # pre))
            \<and> (post = [] \<or> \<not> u_is_word alnum (hd post))"
        by (intro exI [of _ pre'] exI [of _ mid] exI [of _ post]) simp
      with later have "scan_word form alnum w (Some c) cs" by blast
      then show ?thesis by simp
    qed
  qed
qed

lemma scan_whole_word: "scan_word form alnum w None t = whole_word_in form alnum w t"
proof -
  have "\<not> u_word_opt alnum (u_prev_after None pre) = (pre = [] \<or> \<not> u_is_word alnum (last pre))"
    for pre by (simp add: u_prev_after_def u_word_opt_def)
  then show ?thesis unfolding scan_word_iff whole_word_in_def by simp
qed

lemma u_space_not_word: "u_isspace c \<Longrightarrow> \<not> u_is_word alnum c"
proof (cases "c < 256")
  case True
  assume "u_isspace c"
  with True have "isspace (char_of c)" by (simp add: u_isspace_def isspace_def Let_def)
  then show ?thesis using True by (simp add: u_is_word_def space_not_word)
next
  case False
  assume "u_isspace c"
  with False show ?thesis by (auto simp: u_is_word_def wide_fold_def u_isspace_def)
qed

lemma ascii_lower_chr:
  assumes "is_ascii_lower p"
  shows "97 \<le> (of_char p :: nat) \<and> (of_char p :: nat) \<le> 122 \<and> py_lower_chr p = p
         \<and> (of_char (py_upper_chr p) :: nat) = of_char p - 32"
proof -
  define n where "n = (of_char p :: nat)"
  from assms have r: "97 \<le> n \<and> n \<le> 122" by (simp add: is_ascii_lower_def Let_def n_def)
  then have "n - 32 < 256" by arith
  then have "(n - 32) mod 256 = n - 32" by simp
  with r have "(of_char (py_upper_chr p) :: nat) = n - 32"
    by (simp add: py_upper_chr_def Let_def n_def [symmetric])
  with r assms show ?thesis by (simp add: n_def lower_idem)
qed

lemma lower_latin:
  assumes "c < 256" "97 \<le> n \<and> n \<le> (122 :: nat)"
  shows "(of_char (py_lower_chr (char_of c)) = n) = (c = n \<or> c = n - 32)"
proof -
  from assms have m: "c mod 256 = c" by simp
  then have c: "(of_char (char_of c :: char) :: nat) = c" by simp
  show ?thesis
  proof (cases "(65 \<le> c \<and> c \<le> 90) \<or> (192 \<le> c \<and> c \<le> 222 \<and> c \<noteq> 215)")
    case True
    then have "py_lower_chr (char_of c) = char_of (c + 32)"
      by (simp add: py_lower_chr_def Let_def m)
    moreover from True have "c + 32 < 256" by arith
    then have "(c + 32) mod 256 = c + 32" by simp
    ultimately have "(of_char (py_lower_chr (char_of c)) :: nat) = c + 32" by simp
    with True assms show ?thesis by auto
  next
    case False
    then have "py_lower_chr (char_of c) = char_of c"
      unfolding py_lower_chr_def Let_def c by (simp only: if_False)
    with c have "(of_char (py_lower_chr (char_of c)) :: nat) = c" by simp
    with False assms show ?thesis by auto
  qed
qed

lemma u_chr_eq_re_case:
  assumes "is_ascii_lower p"
  shows "u_chr_eq True p c = re_case p c"
proof -
  define n where "n = (of_char p :: nat)"
  note a = ascii_lower_chr [OF assms, folded n_def]
  have e: "(p = q) = ((of_char p :: nat) = of_char q)" for q by (simp only: of_char_eq_iff)
  have s: "(p = CHR ''s'') = (n = 115)" and k: "(p = CHR ''k'') = (n = 107)"
    and i: "(p = CHR ''i'') = (n = 105)"
    unfolding n_def e by (simp_all del: of_char_eq_iff)
  show ?thesis
  proof (cases "c < 256")
    case True
    have "(py_lower_chr (char_of c) = p) = ((of_char (py_lower_chr (char_of c)) :: nat) = n)"
      unfolding n_def by simp
    also have "\<dots> = (c = n \<or> c = n - 32)" using True a by (intro lower_latin) simp_all
    finally show ?thesis using True a
      by (auto simp: u_chr_eq_def re_case_def either_case_def n_def [symmetric] s k i)
  next
    case False
    with a have ne: "c \<noteq> n \<and> c \<noteq> n - 32" by arith
    from a have "(wide_fold c = Some n)
        = ((n = 115 \<and> c = 383) \<or> (n = 107 \<and> c = 8490) \<or> (n = 105 \<and> (c = 304 \<or> c = 305)))"
      by (auto simp: wide_fold_def)
    with False ne a show ?thesis
      by (simp add: u_chr_eq_def re_case_def either_case_def n_def [symmetric] s k i)
  qed
qed

lemma either_case_word:
  assumes "is_ascii_lower p" "either_case p c"
  shows "u_is_word alnum c"
proof -
  define n where "n = (of_char p :: nat)"
  note a = ascii_lower_chr [OF assms(1), folded n_def]
  from assms(2) a have "c = n \<or> c = n - 32" by (simp add: either_case_def n_def)
  with a have r: "(65 \<le> c \<and> c \<le> 90) \<or> (97 \<le> c \<and> c \<le> 122)" by arith
  then have "c < 256" by arith
  then have "c mod 256 = c" by simp
  with r \<open>c < 256\<close> show ?thesis by (auto simp: u_is_word_def is_word_def Let_def)
qed

lemma re_case_word:
  assumes "is_ascii_lower p" "re_case p c"
  shows "u_is_word alnum c"
proof (cases "either_case p c")
  case True
  with assms(1) show ?thesis by (rule either_case_word)
next
  case False
  with assms(2) have "c = 383 \<or> c = 8490 \<or> c = 304 \<or> c = 305" by (auto simp: re_case_def)
  then show ?thesis by (auto simp: u_is_word_def wide_fold_def)
qed

lemma u_lit_form:
  "list_all is_ascii_lower w \<Longrightarrow> u_lit_match True w s = form_match re_case w s"
  by (induction re_case w s rule: form_match.induct) (simp_all add: u_chr_eq_re_case)

lemma u_alt_match:
  "(u_re_match alnum True [Grp_Alt ws, Word_B] prev s \<noteq> None)
     = (\<exists>w \<in> set ws. u_lit_match True w s
          \<and> u_word_b alnum (u_prev_after prev (take (length w) s)) (drop (length w) s))"
  by (induction ws) (auto split: option.splits)

lemma u_sensitive_match:
  "(u_re_match alnum True [Word_B, Grp_Alt ws, Word_B] prev s \<noteq> None)
     = (u_word_b alnum prev s \<and> (\<exists>w \<in> set ws. u_lit_match True w s
          \<and> u_word_b alnum (u_prev_after prev (take (length w) s)) (drop (length w) s)))"
  using u_alt_match [of alnum ws prev s] by simp

lemma list_all2_forms:
  "list_all2 form w mid \<Longrightarrow> (\<And>p c. p \<in> set w \<Longrightarrow> form p c \<Longrightarrow> Q c) \<Longrightarrow> \<forall>x \<in> set mid. Q x"
  by (induction rule: list_all2_induct) auto

lemma u_head:
  assumes "good_word w"
  shows "(u_word_b alnum prev s \<and> u_lit_match True w s
            \<and> u_word_b alnum (u_prev_after prev (take (length w) s)) (drop (length w) s))
       = at_word re_case alnum w prev s"
proof (cases "form_match re_case w s")
  case False
  with assms show ?thesis by (simp add: u_lit_form good_word_def at_word_def)
next
  case True
  define mid where "mid = take (length w) s"
  define post where "post = drop (length w) s"
  from True have len: "length w \<le> length s" and m: "list_all2 re_case w mid"
    by (simp_all add: form_match_iff mid_def)
  from assms len have ne: "mid \<noteq> []" by (auto simp: good_word_def mid_def)
  from assms have "\<And>p c. p \<in> set w \<Longrightarrow> re_case p c \<Longrightarrow> u_is_word alnum c"
    by (auto simp: good_word_def list_all_iff intro: re_case_word)
  with m have w: "\<forall>x \<in> set mid. u_is_word alnum x" by (rule list_all2_forms)
  with ne have hw: "u_is_word alnum (hd mid)" and lw: "u_is_word alnum (last mid)" by simp_all
  have s: "s = mid @ post" by (simp add: mid_def post_def)
  with ne have hs: "hd s = hd mid" and sne: "s \<noteq> []" by auto
  from hw hs sne have b1: "u_word_b alnum prev s = (\<not> u_word_opt alnum prev)"
    by (cases s) (auto simp: u_word_b_def u_word_opt_def)
  from lw ne have b2: "u_word_b alnum (u_prev_after prev mid) post
      = (case post of [] \<Rightarrow> True | c # _ \<Rightarrow> \<not> u_is_word alnum c)"
    by (cases post) (auto simp: u_word_b_def u_prev_after_def)
  from assms True show ?thesis
    unfolding at_word_def mid_def [symmetric] post_def [symmetric] b1 b2
    by (simp add: u_lit_form good_word_def)
qed

lemma u_match_at:
  assumes "\<forall>w \<in> set ws. good_word w"
  shows "(u_re_match alnum True [Word_B, Grp_Alt ws, Word_B] prev s \<noteq> None)
       = (\<exists>w \<in> set ws. at_word re_case alnum w prev s)"
proof -
  have "(u_re_match alnum True [Word_B, Grp_Alt ws, Word_B] prev s \<noteq> None)
      = (\<exists>w \<in> set ws. u_word_b alnum prev s \<and> u_lit_match True w s
          \<and> u_word_b alnum (u_prev_after prev (take (length w) s)) (drop (length w) s))"
    unfolding u_sensitive_match by blast
  also have "\<dots> = (\<exists>w \<in> set ws. at_word re_case alnum w prev s)"
    using assms u_head [of _ alnum prev s] by blast
  finally show ?thesis .
qed

lemma u_search_scan:
  assumes "\<forall>w \<in> set ws. good_word w"
  shows "u_re_search alnum True [Word_B, Grp_Alt ws, Word_B] prev s
       = (\<exists>w \<in> set ws. scan_word re_case alnum w prev s)"
proof (induction s arbitrary: prev)
  case Nil
  show ?case
    unfolding u_re_search.simps u_match_at [OF assms] scan_word.simps ..
next
  case (Cons c cs)
  show ?case
    unfolding u_re_search.simps u_match_at [OF assms] scan_word.simps Cons.IH by blast
qed

lemma u_search_sensitive:
  "u_re_search alnum True sensitive_pattern None t = sensitive_in re_case alnum t"
proof -
  have g: "\<forall>w \<in> set [''password'', ''secret'', ''key'']. good_word w"
    by (simp add: good_word_def is_ascii_lower_def)
  show ?thesis
    unfolding sensitive_pattern_def u_search_scan [OF g] sensitive_in_def scan_whole_word
    by (simp only: list.set bex_simps Un_insert_left insert_iff
        empty_iff bex_triv_one_point1 simp_thms)
qed

lemma u_strip_around:
  assumes "mid \<noteq> []" "\<not> u_isspace (hd mid)" "\<not> u_isspace (last mid)"
  shows "u_strip (pre @ mid @ post)
       = dropWhile u_isspace pre @ mid @ rev (dropWhile u_isspace (rev post))"
proof -
  from assms have a: "dropWhile u_isspace (pre @ mid @ post) = dropWhile u_isspace pre @ mid @ post"
    by (intro dropWhile_before) auto
  from assms have "dropWhile u_isspace (rev post @ (rev mid @ rev (dropWhile u_isspace pre)))
      = dropWhile u_isspace (rev post) @ (rev mid @ rev (dropWhile u_isspace pre))"
    by (intro dropWhile_before) (auto simp: hd_rev)
  with a show ?thesis by (simp add: u_strip_def)
qed

lemma u_strip_decomp:
  "\<exists>a b. t = a @ u_strip t @ b \<and> (\<forall>x \<in> set a. u_isspace x) \<and> (\<forall>x \<in> set b. u_isspace x)"
proof -
  define d where "d = dropWhile u_isspace t"
  define b where "b = rev (takeWhile u_isspace (rev d))"
  have "d = rev (dropWhile u_isspace (rev d)) @ rev (takeWhile u_isspace (rev d))"
    by (metis rev_append rev_rev_ident takeWhile_dropWhile_id)
  then have "d = u_strip t @ b" by (simp only: u_strip_def b_def d_def)
  then have "t = takeWhile u_isspace t @ u_strip t @ b"
    by (metis d_def takeWhile_dropWhile_id)
  moreover have "\<forall>x \<in> set (takeWhile u_isspace t). u_isspace x" by (auto dest: set_takeWhileD)
  moreover have "\<forall>x \<in> set b. u_isspace x" by (auto simp: b_def dest: set_takeWhileD)
  ultimately show ?thesis by blast
qed

lemma whole_word_in_strip:
  assumes "w \<noteq> []" and word: "\<And>p c. p \<in> set w \<Longrightarrow> form p c \<Longrightarrow> u_is_word alnum c"
  shows "whole_word_in form alnum w (u_strip t) = whole_word_in form alnum w t"
proof
  assume "whole_word_in form alnum w t"
  then obtain pre mid post where t: "t = pre @ mid @ post" and m: "list_all2 form w mid"
    and p: "pre = [] \<or> \<not> u_is_word alnum (last pre)"
    and q: "post = [] \<or> \<not> u_is_word alnum (hd post)"
    unfolding whole_word_in_def by blast
  from assms(1) m have ne: "mid \<noteq> []" by (auto simp: list_all2_Cons1 neq_Nil_conv)
  from m word have "\<forall>x \<in> set mid. u_is_word alnum x" by (rule list_all2_forms)
  with ne have "u_is_word alnum (hd mid)" "u_is_word alnum (last mid)" by simp_all
  then have "\<not> u_isspace (hd mid)" "\<not> u_isspace (last mid)"
    using u_space_not_word by blast+
  from u_strip_around [OF ne this]
  have s: "u_strip t = dropWhile u_isspace pre @ mid @ rev (dropWhile u_isspace (rev post))"
    by (simp add: t)
  have "dropWhile u_isspace pre = [] \<or> \<not> u_is_word alnum (last (dropWhile u_isspace pre))"
    using p by (cases "dropWhile u_isspace pre = []") (auto simp: last_dropWhile)
  moreover have "rev (dropWhile u_isspace (rev post)) = []
      \<or> \<not> u_is_word alnum (hd (rev (dropWhile u_isspace (rev post))))"
    using q by (cases "rev (dropWhile u_isspace (rev post)) = []") (auto simp: hd_rstrip)
  ultimately show "whole_word_in form alnum w (u_strip t)"
    unfolding whole_word_in_def using s m by blast
next
  assume "whole_word_in form alnum w (u_strip t)"
  then obtain pre mid post where u: "u_strip t = pre @ mid @ post" and m: "list_all2 form w mid"
    and p: "pre = [] \<or> \<not> u_is_word alnum (last pre)"
    and q: "post = [] \<or> \<not> u_is_word alnum (hd post)"
    unfolding whole_word_in_def by blast
  from u_strip_decomp [of t] obtain a b where t: "t = a @ u_strip t @ b"
    and a: "\<forall>x \<in> set a. u_isspace x" and b: "\<forall>x \<in> set b. u_isspace x" by blast
  from t u have t': "t = (a @ pre) @ mid @ (post @ b)" by simp
  have "a @ pre = [] \<or> \<not> u_is_word alnum (last (a @ pre))"
  proof (cases "pre = []")
    case True
    with a show ?thesis by (cases "a = []") (auto dest: u_space_not_word)
  next
    case False
    with p show ?thesis by simp
  qed
  moreover have "post @ b = [] \<or> \<not> u_is_word alnum (hd (post @ b))"
  proof (cases "post = []")
    case True
    with b show ?thesis by (cases "b = []") (auto dest: u_space_not_word)
  next
    case False
    with q show ?thesis by simp
  qed
  ultimately show "whole_word_in form alnum w t"
    unfolding whole_word_in_def using t' m by blast
qed

lemma sensitive_in_strip: "sensitive_in re_case alnum (u_strip t) = sensitive_in re_case alnum t"
proof -
  have "whole_word_in re_case alnum w (u_strip t) = whole_word_in re_case alnum w t"
    if "good_word w" for w
    using that by (intro whole_word_in_strip)
      (auto simp: good_word_def list_all_iff intro: re_case_word)
  then show ?thesis by (simp add: sensitive_in_def good_word_def is_ascii_lower_def)
qed

lemma u_sensitive_code:
  "sensitive_in re_case alnum t = u_re_search alnum True sensitive_pattern None (u_strip t)"
  by (simp add: u_search_sensitive sensitive_in_strip)

text \<open>
  Claim C2, amended, for the prompt as the Unicode string that the prompt field returns.
  A prompt whose trimmed length is below 10 or above 5000 fails validation. A prompt whose
  trimmed length is within 10..5000 passes (and the acceptance is logged) when it contains
  none of the whole words \<open>password\<close>, \<open>secret\<close>, \<open>key\<close>, and raises \<open>SecurityError\<close>
  when it contains one, where a letter of the word stands in lower or upper case or, as
  \<open>re.IGNORECASE\<close> has it, the long s U+017F stands for s and the Kelvin sign U+212A for
  k.
\<close>

theorem C2_validate_unicode:
  "(length (u_strip entry) < 10 \<or> 5000 < length (u_strip entry)
      \<longrightarrow> (\<exists>e. validate_input_unicode alnum entry st = (Inl e, st)))
   \<and> (10 \<le> length (u_strip entry) \<and> length (u_strip entry) \<le> 5000
        \<and> \<not> sensitive_in re_case alnum entry
      \<longrightarrow> validate_input_unicode alnum entry st = (Inr (), activity_log ''Input validated.'' st))
   \<and> (10 \<le> length (u_strip entry) \<and> length (u_strip entry) \<le> 5000
        \<and> sensitive_in re_case alnum entry
      \<longrightarrow> validate_input_unicode alnum entry st
            = (Inl (SecurityError ''Query contains sensitive keywords''), st))"
  by (simp add: validate_input_unicode_def Let_def u_sensitive_code)

lemmas scan_simps =
  sensitive_in_def scan_whole_word [symmetric] at_word_def re_case_def either_case_def
  u_word_opt_def u_is_word_def is_word_def py_upper_chr_def Let_def code_points_def
  wide_fold_def u_isspace_def

lemma u_strip_short: "u_strip (code_points ''  short '') = code_points ''short''"
  by (simp add: u_strip_def u_isspace_def code_points_def)

lemma u_strip_hello: "u_strip (code_points ''hello world!'') = code_points ''hello world!''"
  by (simp add: u_strip_def u_isspace_def code_points_def)

lemma u_strip_secret: "u_strip (code_points ''my SECRET key'') = code_points ''my SECRET key''"
  by (simp add: u_strip_def u_isspace_def code_points_def)

lemma u_strip_long:
  "u_strip (code_points (''key '' @ replicate 5000 (CHR ''a'')))
     = code_points (''key '' @ replicate 5000 (CHR ''a''))"
  using u_strip_around [of "code_points (''key '' @ replicate 5000 (CHR ''a''))" "[]" "[]"]
  by (simp add: u_isspace_def code_points_def)

lemma u_strip_long_s: "u_strip long_s_prompt = long_s_prompt"
  by (simp add: u_strip_def u_isspace_def code_points_def long_s_prompt_def)

lemma u_strip_kelvin: "u_strip kelvin_prompt = kelvin_prompt"
  by (simp add: u_strip_def u_isspace_def code_points_def kelvin_prompt_def)

lemma hello_not_sensitive: "\<not> sensitive_in re_case alnum (code_points ''hello world!'')"
  by (simp add: scan_simps)

lemma secret_sensitive: "sensitive_in re_case alnum (code_points ''my SECRET key'')"
  by (simp add: scan_simps)

lemma long_s_sensitive: "sensitive_in re_case alnum long_s_prompt"
  by (simp add: scan_simps long_s_prompt_def)

lemma kelvin_sensitive: "sensitive_in re_case alnum kelvin_prompt"
  by (simp add: scan_simps kelvin_prompt_def)

lemma long_s_either_case: "\<not> sensitive_in either_case alnum long_s_prompt"
  by (simp add: scan_simps long_s_prompt_def)

text \<open>
  On a prompt without a code point above 255 the matcher over code points is the matcher
  over the 8-bit alphabet, and the two models of \<open>validate_input\<close> agree.
\<close>

lemma u_isspace_latin: "u_isspace (of_char c) = isspace c"
proof -
  define n where "n = (of_char c :: nat)"
  have "n < 256" by (simp add: n_def)
  then have "u_isspace n = ((9 \<le> n \<and> n \<le> 13) \<or> (28 \<le> n \<and> n \<le> 32) \<or> n = 133 \<or> n = 160)"
    unfolding u_isspace_def by arith
  then show ?thesis by (simp add: isspace_def Let_def n_def)
qed

lemma u_is_word_latin: "u_is_word alnum (of_char c) = is_word c"
  by (simp add: u_is_word_def)

lemma u_chr_eq_latin: "u_chr_eq ic p (of_char c) = chr_eq ic p c"
  by (simp add: u_chr_eq_def chr_eq_def)

lemma u_strip_latin: "u_strip (code_points s) = code_points (py_strip s)"
proof -
  have "u_isspace \<circ> of_char = isspace" by (rule ext) (simp add: u_isspace_latin)
  then have d: "dropWhile u_isspace (map of_char xs) = map of_char (dropWhile isspace xs)"
    for xs :: string by (simp add: dropWhile_map)
  show ?thesis
    by (simp only: u_strip_def py_strip_def code_points_def d rev_map)
qed

lemma length_code_points: "length (code_points s) = length s"
  by (simp add: code_points_def)

lemma u_lit_match_latin: "u_lit_match ic p (code_points s) = lit_match ic p s"
  by (induction ic p s rule: lit_match.induct) (simp_all add: code_points_def u_chr_eq_latin)

lemma u_word_b_latin:
  "u_word_b alnum (map_option of_char prev) (code_points s) = word_b prev s"
  by (cases prev; cases s) (simp_all add: u_word_b_def word_b_def code_points_def u_is_word_latin)

lemma u_prev_after_latin:
  "u_prev_after (map_option of_char prev) (code_points s) = map_option of_char (prev_after prev s)"
  by (simp add: u_prev_after_def prev_after_def code_points_def last_map)

lemma take_code_points: "take n (code_points s) = code_points (take n s)"
  by (simp add: code_points_def take_map)

lemma drop_code_points: "drop n (code_points s) = code_points (drop n s)"
  by (simp add: code_points_def drop_map)

lemma u_re_match_latin:
  "u_re_match alnum ic r (map_option of_char prev) (code_points s)
     = map_option (\<lambda>(g, rest). (code_points g, code_points rest)) (re_match ic r prev s)"
proof (induction ic r prev s rule: re_match.induct)
  case (1 ic prev s)
  show ?case by (simp add: code_points_def)
next
  case (2 ic p r prev s)
  then show ?case
    by (simp add: u_lit_match_latin take_code_points drop_code_points u_prev_after_latin)
next
  case (3 ic r prev s)
  show ?case by simp
next
  case (4 ic p ps r prev s)
  then show ?case
    by (simp add: u_lit_match_latin take_code_points drop_code_points u_prev_after_latin
        split: option.splits)
next
  case (5 ic r prev)
  then show ?case by (simp add: code_points_def)
next
  case (6 ic r prev c cs)
  from 6 [unfolded code_points_def] show ?case
    by (simp add: code_points_def u_isspace_latin split: option.splits)
next
  case (7 ic r prev s)
  show ?case
  proof (cases s)
    case Nil
    with 7 show ?thesis by (simp add: code_points_def split: option.splits)
  next
    case (Cons c cs)
    with 7 [unfolded code_points_def] show ?thesis
      by (simp add: code_points_def split: option.splits)
  qed
next
  case (8 ic r prev s)
  then show ?case by (simp add: u_word_b_latin)
qed

lemma u_re_search_latin:
  "u_re_search alnum ic r (map_option of_char prev) (code_points s) = re_search ic r prev s"
proof (induction s arbitrary: prev)
  case Nil
  from u_re_match_latin [of alnum ic r prev "[]"] show ?case
    by (simp add: code_points_def del: re_match.simps u_re_match.simps)
next
  case (Cons c cs)
  from u_re_match_latin [of alnum ic r prev "c # cs"] Cons [of "Some c"] show ?case
    by (simp add: code_points_def del: re_match.simps u_re_match.simps)
qed

lemma validate_input_latin:
  "validate_input_unicode alnum (code_points (text_entry st)) st = validate_input st"
  using u_re_search_latin [of alnum True sensitive_pattern None "py_strip (text_entry st)"]
  by (simp add: validate_input_unicode_def validate_input_def u_strip_latin Let_def
      length_code_points del: re_search.simps u_re_search.simps)

text \<open>
  The order of the tests is the same for the Unicode prompt: outside the length bounds
  the error is a \<open>ValueError\<close> and never a \<open>SecurityError\<close>.
\<close>

lemma validate_unicode_length_first:
  "(length (u_strip entry) < 10 \<or> 5000 < length (u_strip entry)
      \<longrightarrow> (\<exists>m. validate_input_unicode alnum entry st = (Inl (ValueError m), st))
          \<and> (\<forall>m. fst (validate_input_unicode alnum entry st) \<noteq> Inl (SecurityError m)))
   \<and> (\<forall>m. fst (validate_input_unicode alnum entry st) = Inl (SecurityError m)
          \<longrightarrow> 10 \<le> length (u_strip entry) \<and> length (u_strip entry) \<le> 5000
              \<and> sensitive_in re_case alnum entry)"
  by (auto simp: validate_input_unicode_def Let_def u_sensitive_code)

lemma length_long_s: "length long_s_prompt = 27"
  by (simp add: long_s_prompt_def code_points_def)

lemma length_kelvin: "length kelvin_prompt = 21"
  by (simp add: kelvin_prompt_def code_points_def)

text \<open>
  Claim C2 as stated fails. The prompt \<open>long_s_prompt\<close> has a trimmed length of 27 and
  contains none of the three words in any letter case, since the long s is neither the
  lower-case nor the upper-case letter s; yet validation raises \<open>SecurityError\<close>.
\<close>

theorem C2_counterexample:
  "10 \<le> length (u_strip long_s_prompt) \<and> length (u_strip long_s_prompt) \<le> 5000
   \<and> \<not> sensitive_in either_case greek_alnum long_s_prompt
   \<and> validate_input_unicode greek_alnum long_s_prompt st0
       = (Inl (SecurityError ''Query contains sensitive keywords''), st0)"
proof -
  have "validate_input_unicode greek_alnum long_s_prompt st0
         = (Inl (SecurityError ''Query contains sensitive keywords''), st0)"
    using long_s_sensitive [of greek_alnum, unfolded u_sensitive_code u_strip_long_s]
    by (simp add: validate_input_unicode_def Let_def u_strip_long_s length_long_s
        del: u_re_search.simps)
  then show ?thesis
    by (simp add: u_strip_long_s length_long_s long_s_either_case)
qed

text \<open>
  The four cases of the amended claim C2 occur: a prompt that is too short, one that is
  too long, one that passes, and one that is refused for the word \<open>Key\<close> written with
  the Kelvin sign.
\<close>

theorem C2_validate_unicode_witness:
  "length (u_strip (code_points ''  short '')) < 10
   \<and> (\<exists>e. validate_input_unicode greek_alnum (code_points ''  short '') st0 = (Inl e, st0))
   \<and> 5000 < length (u_strip (code_points (''key '' @ replicate 5000 (CHR ''a''))))
   \<and> (\<exists>e. validate_input_unicode greek_alnum
            (code_points (''key '' @ replicate 5000 (CHR ''a''))) st0 = (Inl e, st0))
   \<and> 10 \<le> length (u_strip (code_points ''hello world!''))
   \<and> length (u_strip (code_points ''hello world!'')) \<le> 5000
   \<and> \<not> sensitive_in re_case greek_alnum (code_points ''hello world!'')
   \<and> validate_input_unicode greek_alnum (code_points ''hello world!'') st0
       = (Inr (), activity_log ''Input validated.'' st0)
   \<and> 10 \<le> length (u_strip kelvin_prompt) \<and> length (u_strip kelvin_prompt) \<le> 5000
   \<and> sensitive_in re_case greek_alnum kelvin_prompt
   \<and> validate_input_unicode greek_alnum kelvin_prompt st0
       = (Inl (SecurityError ''Query contains sensitive keywords''), st0)"
proof -
  have a: "length (u_strip (code_points ''  short '')) < 10"
    by (simp add: u_strip_short length_code_points)
  have b: "5000 < length (u_strip (code_points (''key '' @ replicate 5000 (CHR ''a''))))"
    unfolding u_strip_long length_code_points by simp
  have c: "10 \<le> length (u_strip (code_points ''hello world!''))
      \<and> length (u_strip (code_points ''hello world!'')) \<le> 5000
      \<and> \<not> sensitive_in re_case greek_alnum (code_points ''hello world!'')"
    by (simp add: u_strip_hello hello_not_sensitive length_code_points)
  have d: "10 \<le> length (u_strip kelvin_prompt) \<and> length (u_strip kelvin_prompt) \<le> 5000
      \<and> sensitive_in re_case greek_alnum kelvin_prompt"
    by (simp add: u_strip_kelvin length_kelvin kelvin_sensitive)
  note a' = mp [OF conjunct1 [OF C2_validate_unicode
        [of "code_points ''  short ''" greek_alnum st0]] disjI1 [OF a]]
  note b' = mp [OF conjunct1 [OF C2_validate_unicode
        [of "code_points (''key '' @ replicate 5000 (CHR ''a''))" greek_alnum st0]] disjI2 [OF b]]
  note c' = mp [OF conjunct1 [OF conjunct2 [OF C2_validate_unicode
        [of "code_points ''hello world!''" greek_alnum st0]]] c]
  note d' = mp [OF conjunct2 [OF conjunct2 [OF C2_validate_unicode
        [of kelvin_prompt greek_alnum st0]]] d]
  show ?thesis
    by (intro conjI a a' b b' c' d' conjunct1 [OF c] conjunct1 [OF conjunct2 [OF c]]
          conjunct2 [OF conjunct2 [OF c]] conjunct1 [OF d] conjunct1 [OF conjunct2 [OF d]]
          conjunct2 [OF conjunct2 [OF d]])
qed

subsection \<open>The workers\<close>

lemma worker_primary_ok:
  assumes "selected_model st = ''Gemini Pro''"
    and "gemini env (api_calls st) (py_strip (text_entry st)) = Inr out"
  shows "generate_content_worker env st
    = emit (Sig_Ui_Update True) (emit (Sig_Result out)
        (activity_log ''Generated content using Gemini Pro.''
          (st\<lparr>api_calls := Suc (api_calls st)\<rparr>)))"
  using assms by (simp add: generate_content_worker_def call_gemini_def Let_def)

lemma worker_primary_retry:
  assumes "selected_model st = ''Gemini Pro''"
    and "gemini env (api_calls st) (py_strip (text_entry st)) = Inl e1"
  shows "generate_content_worker env st
    = emit (Sig_Ui_Update True)
        (emit (case gemini env (Suc (api_calls st)) (py_strip (text_entry st)) of
                 Inr out \<Rightarrow> Sig_Result out
               | Inl e2 \<Rightarrow> Sig_Error (''API Error: '' @ e2))
          ((activity_log (''Gemini Pro failed ('' @ e1 @ ''); falling back to Gemini Pro.'') st)
             \<lparr>api_calls := Suc (Suc (api_calls st))\<rparr>))"
  using assms
  by (simp add: generate_content_worker_def call_gemini_def Let_def activity_log_def emit_def
        split: sum.splits)

lemma worker_other:
  assumes "selected_model st \<noteq> ''Gemini Pro''"
  shows "generate_content_worker env st
    = emit (Sig_Ui_Update True)
        (emit (Sig_Result (''Simulated output from '' @ selected_model st @ '' for prompt: ''
                 @ py_strip (text_entry st)))
          (activity_log (''Generated content using '' @ selected_model st @ ''.'') st))"
  using assms by (simp add: generate_content_worker_def Let_def)

text \<open>
  Claim C3, as amended. The worker calls Gemini Pro at most twice, so there is at most
  one retry. The retry is made exactly when the first attempt raises, and the only
  attempt that can raise is the call of Gemini Pro itself: with another model selected
  the text is simulated, nothing is called and nothing is retried. When the retry raises
  as well, the task ends with the error signal \<open>API Error: ...\<close> of the second
  exception; when the retry answers, the task ends with its result. In every case the
  last signal is the re-enabling of the input.
\<close>

theorem C3_fallback:
  "api_calls (generate_content_worker env st) \<le> api_calls st + 2
   \<and> (api_calls (generate_content_worker env st) = api_calls st + 2)
       = (selected_model st = ''Gemini Pro''
          \<and> isl (gemini env (api_calls st) (py_strip (text_entry st))))
   \<and> (selected_model st \<noteq> ''Gemini Pro''
        \<longrightarrow> api_calls (generate_content_worker env st) = api_calls st
          \<and> emitted (generate_content_worker env st)
              = emitted st @ [Sig_Result (''Simulated output from '' @ selected_model st
                   @ '' for prompt: '' @ py_strip (text_entry st)), Sig_Ui_Update True])
   \<and> (\<forall>e1 e2. selected_model st = ''Gemini Pro''
          \<and> gemini env (api_calls st) (py_strip (text_entry st)) = Inl e1
          \<and> gemini env (Suc (api_calls st)) (py_strip (text_entry st)) = Inl e2
        \<longrightarrow> emitted (generate_content_worker env st)
              = emitted st @ [Sig_Error (''API Error: '' @ e2), Sig_Ui_Update True])
   \<and> (\<forall>e1 out. selected_model st = ''Gemini Pro''
          \<and> gemini env (api_calls st) (py_strip (text_entry st)) = Inl e1
          \<and> gemini env (Suc (api_calls st)) (py_strip (text_entry st)) = Inr out
        \<longrightarrow> emitted (generate_content_worker env st)
              = emitted st @ [Sig_Result out, Sig_Ui_Update True])"
proof (cases "selected_model st = ''Gemini Pro''")
  case True
  show ?thesis
  proof (cases "gemini env (api_calls st) (py_strip (text_entry st))")
    case (Inl e1)
    from worker_primary_retry [OF True Inl] True Inl show ?thesis
      by (simp add: emit_def activity_log_def split: sum.splits)
  next
    case (Inr out)
    from worker_primary_ok [OF True Inr] True Inr show ?thesis
      by (simp add: emit_def activity_log_def)
  qed
next
  case False
  from worker_other [OF False] False show ?thesis
    by (simp add: emit_def activity_log_def)
qed

text \<open>
  Claim C3 as stated fails: with Gemini Pro selected and its own call raising, the
  worker does call Gemini Pro a second time, and when that call answers the task is
  reported as a success.
\<close>

theorem C3_counterexample:
  "selected_model st0 = ''Gemini Pro''
   \<and> gemini env_retry (api_calls st0) (py_strip (text_entry st0)) = Inl ''boom''
   \<and> api_calls (generate_content_worker env_retry st0) = api_calls st0 + 2
   \<and> emitted (generate_content_worker env_retry st0) = [Sig_Result ''ok'', Sig_Ui_Update True]"
proof -
  have m: "selected_model st0 = ''Gemini Pro''" by (simp add: st0_def)
  have f: "gemini env_retry (api_calls st0) (py_strip (text_entry st0)) = Inl ''boom''"
    by (simp add: env_retry_def st0_def)
  have s: "gemini env_retry (Suc (api_calls st0)) (py_strip (text_entry st0)) = Inr ''ok''"
    by (simp add: env_retry_def st0_def)
  have e: "emitted st0 = []" by (simp add: st0_def)
  show ?thesis
    unfolding worker_primary_retry [OF m f] s
    by (simp add: m f emit_def activity_log_def e)
qed

theorem C3_fallback_witness:
  "selected_model st0 = ''Gemini Pro''
   \<and> gemini env_down (api_calls st0) (py_strip (text_entry st0)) = Inl ''boom''
   \<and> gemini env_down (Suc (api_calls st0)) (py_strip (text_entry st0)) = Inl ''boom''
   \<and> emitted (generate_content_worker env_down st0)
       = emitted st0 @ [Sig_Error (''API Error: '' @ ''boom''), Sig_Ui_Update True]
   \<and> selected_model (st0\<lparr>selected_model := ''Claude''\<rparr>) \<noteq> ''Gemini Pro''
   \<and> api_calls (generate_content_worker env_down (st0\<lparr>selected_model := ''Claude''\<rparr>))
       = api_calls (st0\<lparr>selected_model := ''Claude''\<rparr>)"
proof -
  have m: "selected_model st0 = ''Gemini Pro''" by (simp add: st0_def)
  have f: "gemini env_down (api_calls st0) (py_strip (text_entry st0)) = Inl ''boom''"
    by (simp add: env_down_def)
  have s: "gemini env_down (Suc (api_calls st0)) (py_strip (text_entry st0)) = Inl ''boom''"
    by (simp add: env_down_def)
  have o: "selected_model (st0\<lparr>selected_model := ''Claude''\<rparr>) \<noteq> ''Gemini Pro''" by simp
  note T = C3_fallback [of env_down st0]
  note a = mp [OF spec [OF spec [OF conjunct1 [OF conjunct2 [OF conjunct2 [OF conjunct2 [OF T]]]]]]
      conjI [OF m conjI [OF f s]]]
  note U = C3_fallback [of env_down "st0\<lparr>selected_model := ''Claude''\<rparr>"]
  note b = conjunct1 [OF mp [OF conjunct1 [OF conjunct2 [OF conjunct2 [OF U]]] o]]
  show ?thesis
    by (intro conjI m f s a o b)
qed

text \<open>
  Claim C7 fails for a code modification whose call of the model raises:
  \<open>apply_code_changes\<close> disables the button, the worker emits the error signal alone
  and returns, and the slot of that signal leaves the button disabled. No signal that
  re-enables the input is emitted, unlike in \<open>generate_content_worker\<close>, whose
  \<open>finally\<close> emits one on every path (lemma \<open>generate_emits_one_ui_update\<close> below).
\<close>

theorem C7_failed_modification:
  "apply_changes_btn_enabled st0
   \<and> emitted after_failed_modification = [Sig_Error ''Error modifying code: boom'']
   \<and> \<not> apply_changes_btn_enabled after_failed_modification
   \<and> slot env_down (Sig_Error ''Error modifying code: boom'') after_failed_modification
       = Some (Inr (), show_error ''Error modifying code: boom'' after_failed_modification)
   \<and> \<not> apply_changes_btn_enabled
         (show_error ''Error modifying code: boom'' after_failed_modification)"
  by (simp add: after_failed_modification_def apply_code_changes_def
        apply_code_changes_worker_def call_gemini_def env_down_def emit_def show_error_def
        py_strip_def isspace_def st0_def)

lemma generate_emits_one_ui_update:
  "\<exists>sig. emitted (generate_content_worker env st) = emitted st @ [sig, Sig_Ui_Update True]
      \<and> (\<forall>b. sig \<noteq> Sig_Ui_Update b)"
proof (cases "selected_model st = ''Gemini Pro''")
  case True
  show ?thesis
  proof (cases "gemini env (api_calls st) (py_strip (text_entry st))")
    case (Inl e1)
    from worker_primary_retry [OF True Inl] show ?thesis
      by (auto simp: emit_def activity_log_def split: sum.splits)
  next
    case (Inr out)
    from worker_primary_ok [OF True Inr] show ?thesis
      by (simp add: emit_def activity_log_def)
  qed
next
  case False
  from worker_other [OF False] show ?thesis
    by (simp add: emit_def activity_log_def)
qed

subsection \<open>Code blocks and the preview document\<close>

lemmas engine_simps =
  re_findall_def fence_pattern_def isspace_def prev_after_def chr_eq_def

lemma example_blocks:
  "extract_code_blocks example_text
     = [(''python'', []), (''javascript'', []), (''html'', [''<p>hi</p>'']),
        (''css'', [''body{color:red}'']), (''bash'', [])]"
  by (simp add: extract_code_blocks_def example_text_def engine_simps)

lemma extract_code_blocks_eq:
  "extract_code_blocks text
     = [(''python'', blocks_of ''python'' text), (''javascript'', blocks_of ''javascript'' text),
        (''html'', blocks_of ''html'' text), (''css'', blocks_of ''css'' text),
        (''bash'', blocks_of ''bash'' text)]"
  by (simp add: extract_code_blocks_def blocks_of_def)

lemma lang_step_web:
  "lang_step env ''html'' bs fr st = Some (Inr (fr\<lparr>html_code := concat_blocks (html_code fr) bs\<rparr>), st)"
  "lang_step env ''css'' bs fr st = Some (Inr (fr\<lparr>css_code := concat_blocks (css_code fr) bs\<rparr>), st)"
  "lang_step env ''javascript'' bs fr st
     = Some (Inr (fr\<lparr>js_code := concat_blocks (js_code fr) bs\<rparr>), st)"
  by (simp_all add: lang_step_def)

lemma lang_step_run:
  "lang_step env ''python'' bs fr st
     = (case run_blocks env ''python'' 0 bs st of
          None \<Rightarrow> None
        | Some (Inl e, st1) \<Rightarrow> Some (Inl e, st1)
        | Some (Inr u, st1) \<Rightarrow> Some (Inr fr, st1))"
  "lang_step env ''bash'' bs fr st
     = (case run_blocks env ''bash'' 0 bs st of
          None \<Rightarrow> None
        | Some (Inl e, st1) \<Rightarrow> Some (Inl e, st1)
        | Some (Inr u, st1) \<Rightarrow> Some (Inr fr, st1))"
  by (simp_all add: lang_step_def)

lemma for_each_lang_extract:
  "for_each_lang env (extract_code_blocks text) \<lparr>html_code = [], css_code = [], js_code = []\<rparr> st
     = (case run_blocks env ''python'' 0 (blocks_of ''python'' text) st of
          None \<Rightarrow> None
        | Some (Inl e, st1) \<Rightarrow> Some (Inl e, st1)
        | Some (Inr u, st1) \<Rightarrow>
            (case run_blocks env ''bash'' 0 (blocks_of ''bash'' text) st1 of
               None \<Rightarrow> None
             | Some (Inl e, st2) \<Rightarrow> Some (Inl e, st2)
             | Some (Inr u, st2) \<Rightarrow> Some (Inr (web_frags text), st2)))"
  unfolding extract_code_blocks_eq
  by (simp add: lang_step_web lang_step_run web_frags_def split: option.splits sum.splits prod.splits)

lemma run_blocks_nil: "run_blocks env lang i [] st = Some (Inr (), st)"
  by simp




lemma example_frags:
  "web_frags example_text
     = \<lparr>html_code = ''<p>hi</p>\<newline>'', css_code = ''body{color:red}\<newline>'', js_code = []\<rparr>"
  using example_blocks unfolding extract_code_blocks_eq
  by (simp add: web_frags_def concat_blocks_def py_strip_def isspace_def nl_def)

lemma example_assembled: "assemble_document (web_frags example_text) = Inr (Some example_doc)"
  unfolding example_frags
  by (simp add: assemble_document_def html_template_def example_doc_def py_lower_def
        py_lower_chr_def)

text \<open>
  Claim C8. For the example text of the specification, \<open>process_code_blocks\<close> publishes
  the full-document template around the html fragment \<open><p>hi</p>\<close>, with the css
  fragment in its style block and the empty javascript fragment in its script block; the
  document has exactly one wrapper token and exactly one style block, which contains
  \<open>body{color:red}\<close>, and \<open><p>hi</p>\<close> is the content of its body.
\<close>

theorem C8_example:
  "process_code_blocks env example_text st
     = Some (Inr (),
         activity_log ''Code editor updated with generated web code.''
           ((queue_put ''Live preview updated with web code.''
              (st\<lparr>live_preview := Some example_doc\<rparr>))\<lparr>code_update := Some example_doc\<rparr>))
   \<and> example_doc = html_template ''body{color:red}\<newline>'' ''<p>hi</p>\<newline>'' []
   \<and> count_sub ''<html'' (py_lower example_doc) = 1
   \<and> count_sub ''<style'' (py_lower example_doc) = 1
   \<and> sublist (''<style>\<newline>body{color:red}\<newline>\<newline></style>'') example_doc
   \<and> sublist (''<body>\<newline><p>hi</p>\<newline>\<newline><script>\<newline>\<newline></script>\<newline></body>'') example_doc"
proof -
  have b: "blocks_of ''python'' example_text = []" "blocks_of ''bash'' example_text = []"
    using example_blocks unfolding extract_code_blocks_eq by simp_all
  have a: "process_code_blocks env example_text st
     = Some (Inr (),
         activity_log ''Code editor updated with generated web code.''
           ((queue_put ''Live preview updated with web code.''
              (st\<lparr>live_preview := Some example_doc\<rparr>))\<lparr>code_update := Some example_doc\<rparr>))"
    unfolding process_code_blocks_def for_each_lang_extract b
    by (simp add: example_assembled)
  have c: "example_doc = html_template ''body{color:red}\<newline>'' ''<p>hi</p>\<newline>'' []"
    by (simp add: example_doc_def html_template_def)
  have d: "count_sub ''<html'' (py_lower example_doc) = 1"
    by (simp add: example_doc_def py_lower_def py_lower_chr_def)
  have e: "count_sub ''<style'' (py_lower example_doc) = 1"
    by (simp add: example_doc_def py_lower_def py_lower_chr_def)
  have f: "sublist (''<style>\<newline>body{color:red}\<newline>\<newline></style>'') example_doc"
    unfolding py_in_sublist [symmetric] by (simp add: example_doc_def)
  have g: "sublist (''<body>\<newline><p>hi</p>\<newline>\<newline><script>\<newline>\<newline></script>\<newline></body>'') example_doc"
    unfolding py_in_sublist [symmetric] by (simp add: example_doc_def)
  from a c d e f g show ?thesis by (intro conjI)
qed

lemma ruby_blocks:
  "extract_code_blocks ruby_text
     = [(''python'', []), (''javascript'', []), (''html'', []), (''css'', []), (''bash'', [])]"
  by (simp add: extract_code_blocks_def ruby_text_def engine_simps)

lemma python3_blocks:
  "extract_code_blocks python3_text
     = [(''python'', [''3\<newline>print(1)'']), (''javascript'', []), (''html'', []), (''css'', []),
        (''bash'', [])]"
  by (simp add: extract_code_blocks_def python3_text_def engine_simps)


lemma icon_blocks:
  "extract_code_blocks (page_with icon_css)
     = [(''python'', []), (''javascript'', []), (''html'', [page_html]),
        (''css'', [icon_css]), (''bash'', [])]"
  by (simp add: extract_code_blocks_def page_with_def page_html_def icon_css_def engine_simps
        dquote_def backslash_def)

lemma quote_blocks:
  "extract_code_blocks (page_with quote_css)
     = [(''python'', []), (''javascript'', []), (''html'', [page_html]),
        (''css'', [quote_css]), (''bash'', [])]"
  by (simp add: extract_code_blocks_def page_with_def page_html_def quote_css_def engine_simps
        dquote_def backslash_def)

lemma char_of_eqI: "of_char c = (n :: nat) \<Longrightarrow> char_of n = c"
  by auto

lemma digit_chr_1: "digit_chr (Suc 0) = CHR ''1''"
  unfolding digit_chr_def by (rule char_of_eqI) simp

lemma char_of_129: "char_of (129 :: nat) = CHR 0x81"
  by (rule char_of_eqI) simp

lemmas template_simps =
  parse_template.simps tcons_def addgroup_def escapes_def is_digit_def is_octdigit_def
  digit_val_def is_ascii_letter_def backslash_def Let_def

text \<open>
  Claim C6 fails. The dictionary of \<open>extract_code_blocks\<close> has the five fixed keys and no
  other, so the last branch of the loop of \<open>process_code_blocks\<close> never runs: for a text
  with a \<open>ruby\<close> block nothing is extracted, no file is written and nothing is put on the
  queue. A tag that merely starts with a recognized one is taken for it: the block tagged
  \<open>python3\<close> is written to \<open>code_1.py\<close> and handed to \<open>execute_safe_command\<close>.
\<close>

theorem C6_unrecognized_tag:
  "map fst (extract_code_blocks text) = [''python'', ''javascript'', ''html'', ''css'', ''bash'']
   \<and> extract_code_blocks ruby_text
       = [(''python'', []), (''javascript'', []), (''html'', []), (''css'', []), (''bash'', [])]
   \<and> process_code_blocks env ruby_text st = Some (Inr (), st)
   \<and> process_code_blocks env0 python3_text st0
       = Some (Inr (),
           st0\<lparr>files := [(''/home/user/Desktop/code_1.py'', ''3\<newline>print(1)'')],
               queue := [''$ python '' @ [dquote] @ ''/home/user/Desktop/code_1.py'' @ [dquote]],
               spawned := [''python '' @ [dquote] @ ''/home/user/Desktop/code_1.py'' @ [dquote]]\<rparr>)"
proof -
  have a: "map fst (extract_code_blocks text)
      = [''python'', ''javascript'', ''html'', ''css'', ''bash'']"
    by (simp add: extract_code_blocks_def)
  have rb: "blocks_of ''python'' ruby_text = []" "blocks_of ''bash'' ruby_text = []"
    "blocks_of ''html'' ruby_text = []" "blocks_of ''css'' ruby_text = []"
    "blocks_of ''javascript'' ruby_text = []"
    using ruby_blocks unfolding extract_code_blocks_eq by simp_all
  have c: "process_code_blocks env ruby_text st = Some (Inr (), st)"
    unfolding process_code_blocks_def for_each_lang_extract rb
    by (simp add: web_frags_def rb concat_blocks_def assemble_document_def)
  have pb: "blocks_of ''python'' python3_text = [''3\<newline>print(1)'']"
    "blocks_of ''bash'' python3_text = []"
    "blocks_of ''html'' python3_text = []" "blocks_of ''css'' python3_text = []"
    "blocks_of ''javascript'' python3_text = []"
    using python3_blocks unfolding extract_code_blocks_eq by simp_all
  have r: "read_loop (\<lambda>i. None) 0 q = Some q" for q :: "string list"
    by (subst read_loop.simps) simp
  have "run_blocks env0 ''python'' 0 [''3\<newline>print(1)''] st0
    = Some (Inr (),
           st0\<lparr>files := [(''/home/user/Desktop/code_1.py'', ''3\<newline>print(1)'')],
               queue := [''$ python '' @ [dquote] @ ''/home/user/Desktop/code_1.py'' @ [dquote]],
               spawned := [''python '' @ [dquote] @ ''/home/user/Desktop/code_1.py'' @ [dquote]]\<rparr>)"
    by (simp add: Let_def code_path_def env0_def str_nat.simps digit_chr_1 write_file_def
          execute_safe_command_def unsafe_patterns_def queue_put_def st0_def dquote_def r
          py_strip_def isspace_def)
  then have d: "process_code_blocks env0 python3_text st0
       = Some (Inr (),
           st0\<lparr>files := [(''/home/user/Desktop/code_1.py'', ''3\<newline>print(1)'')],
               queue := [''$ python '' @ [dquote] @ ''/home/user/Desktop/code_1.py'' @ [dquote]],
               spawned := [''python '' @ [dquote] @ ''/home/user/Desktop/code_1.py'' @ [dquote]]\<rparr>)"
    unfolding process_code_blocks_def for_each_lang_extract pb
    by (simp add: web_frags_def pb concat_blocks_def assemble_document_def)
  from a ruby_blocks c d show ?thesis by (intro conjI)
qed


text \<open>
  Claim C10 fails for a fragment that contains a backslash, because the fragment is made
  part of the replacement template of \<open>re.sub\<close>. With a full document that has a
  \<open></head>\<close> and the style sheet \<open>icon_css\<close>, whose content is a backslash followed by
  \<open>e900\<close>, \<open>re.sub\<close> raises \<open>re.error\<close> and no document is assembled; with
  \<open>quote_css\<close>, whose content is a backslash followed by \<open>201C\<close>, the style block that is
  inserted holds the character 129 in place of the backslash and \<open>201\<close>.
\<close>

theorem C10_backslash:
  "web_frags (page_with icon_css)
     = \<lparr>html_code = page_html @ [nl], css_code = icon_css @ [nl], js_code = []\<rparr>
   \<and> assemble_document (web_frags (page_with icon_css)) = Inl ReError
   \<and> process_code_blocks env (page_with icon_css) st = Some (Inl ReError, st)
   \<and> assemble_document (web_frags (page_with quote_css))
       = Inr (Some (''<html><head><style>q:before{content:'' @ [dquote, CHR 0x81] @ ''C''
            @ [dquote] @ ''}\<newline></style></head><body></body></html>\<newline>''))"
proof -
  have b: "blocks_of ''python'' (page_with icon_css) = []"
    "blocks_of ''bash'' (page_with icon_css) = []"
    "blocks_of ''html'' (page_with icon_css) = [page_html]"
    "blocks_of ''css'' (page_with icon_css) = [icon_css]"
    "blocks_of ''javascript'' (page_with icon_css) = []"
    using icon_blocks unfolding extract_code_blocks_eq by simp_all
  have b': "blocks_of ''html'' (page_with quote_css) = [page_html]"
    "blocks_of ''css'' (page_with quote_css) = [quote_css]"
    "blocks_of ''javascript'' (page_with quote_css) = []"
    using quote_blocks unfolding extract_code_blocks_eq by simp_all
  have s: "py_strip page_html = page_html" "py_strip icon_css = icon_css"
    "py_strip quote_css = quote_css"
    by (simp_all add: py_strip_def isspace_def page_html_def icon_css_def quote_css_def
          dquote_def backslash_def)
  have f: "web_frags (page_with icon_css)
     = \<lparr>html_code = page_html @ [nl], css_code = icon_css @ [nl], js_code = []\<rparr>"
    by (simp add: web_frags_def b concat_blocks_def s)
  have f': "web_frags (page_with quote_css)
     = \<lparr>html_code = page_html @ [nl], css_code = quote_css @ [nl], js_code = []\<rparr>"
    by (simp add: web_frags_def b' concat_blocks_def s)
  have h: "py_in ''<html'' (py_lower (page_html @ [nl]))"
    by (simp add: page_html_def py_lower_def py_lower_chr_def nl_def)
  have "parse_template 1 (style_repl (icon_css @ [nl])) = Inl ReError"
    by (simp add: style_repl_def icon_css_def dquote_def nl_def template_simps)
  then have t: "re_sub True [Grp_Alt [''</head>'']] (style_repl (icon_css @ [nl])) subject
      = Inl ReError" for subject
    by (simp add: re_sub_def rx_groups_def)
  have a: "assemble_document (web_frags (page_with icon_css)) = Inl ReError"
    unfolding f using h
    by (simp add: assemble_document_def t)
  have p: "process_code_blocks env (page_with icon_css) st = Some (Inl ReError, st)"
    unfolding process_code_blocks_def for_each_lang_extract b by (simp add: a)
  have "parse_template 1 (style_repl (quote_css @ [nl]))
      = Inr (map T_Chr (''<style>q:before{content:'' @ [dquote, CHR 0x81] @ ''C''
            @ [dquote] @ ''}\<newline></style>'') @ [T_Group 1])"
    by (simp add: style_repl_def quote_css_def dquote_def nl_def template_simps char_of_129)
  then have t': "re_sub True [Grp_Alt [''</head>'']] (style_repl (quote_css @ [nl]))
        (page_html @ [nl])
      = Inr (''<html><head><style>q:before{content:'' @ [dquote, CHR 0x81] @ ''C''
            @ [dquote] @ ''}\<newline></style></head><body></body></html>\<newline>'')"
    by (simp add: re_sub_def rx_groups_def page_html_def nl_def dquote_def
          expand_template_def chr_eq_def py_lower_chr_def prev_after_def)
  have q: "assemble_document (web_frags (page_with quote_css))
       = Inr (Some (''<html><head><style>q:before{content:'' @ [dquote, CHR 0x81] @ ''C''
            @ [dquote] @ ''}\<newline></style></head><body></body></html>\<newline>''))"
    unfolding f' using h
    by (simp add: assemble_document_def t')
  from f a p q show ?thesis by (intro conjI)
qed

theorem C10_backslash_witness:
  "assemble_document (web_frags (page_with icon_css)) = Inl ReError
   \<and> process_code_blocks env0 (page_with icon_css) st0 = Some (Inl ReError, st0)"
  by (intro conjI conjunct1 [OF conjunct2 [OF C10_backslash [of env0 st0]]]
        conjunct1 [OF conjunct2 [OF conjunct2 [OF C10_backslash [of env0 st0]]]])

subsection \<open>Extraction of fenced blocks\<close>

lemma lit_match_cs: "lit_match False p s = prefix p s"
  by (induction False p s rule: lit_match.induct) (auto simp: chr_eq_def)

lemma space_not_prefix:
  "cl \<noteq> [] \<Longrightarrow> \<not> isspace (hd cl) \<Longrightarrow> isspace c \<Longrightarrow> \<not> prefix cl (c # cs)"
  by (cases cl) auto

lemma single_lit: "re_match False [Lit cl] prev s = (if prefix cl s then Some ([], drop (length cl) s) else None)"
  by (simp add: lit_match_cs)

lemma tail_match:
  assumes "cl \<noteq> []" "\<not> isspace (hd cl)"
  shows "re_match False [Space_Star, Lit cl] prev s
     = (if prefix cl (dropWhile isspace s)
        then Some ([], drop (length cl) (dropWhile isspace s)) else None)"
proof (induction s arbitrary: prev)
  case Nil
  then show ?case by (simp add: lit_match_cs)
next
  case (Cons c cs)
  show ?case
  proof (cases "isspace c")
    case True
    have "re_match False [Space_Star, Lit cl] prev (c # cs)
        = (case re_match False [Space_Star, Lit cl] (Some c) cs of
             Some m \<Rightarrow> Some m | None \<Rightarrow> re_match False [Lit cl] prev (c # cs))"
      using True by simp
    also have "re_match False [Lit cl] prev (c # cs) = None"
      unfolding single_lit using space_not_prefix [OF assms True] by simp
    finally show ?thesis
      using True by (simp add: Cons [of "Some c"] del: re_match.simps)
  next
    case False
    have "re_match False [Space_Star, Lit cl] prev (c # cs) = re_match False [Lit cl] prev (c # cs)"
      using False by simp
    then show ?thesis unfolding single_lit using False by simp
  qed
qed

lemma first_occurrence_prefix:
  assumes "d \<noteq> []" "prefix p (d @ p @ x)"
  shows "sublist p (d @ butlast p)"
proof (cases "p = []")
  case True
  then show ?thesis by simp
next
  case False
  then have p: "p = butlast p @ [last p]" by simp
  from assms(1) have len: "length p \<le> length (d @ butlast p)"
    by (cases d) auto
  from assms(2) have "take (length p) (d @ p @ x) = p"
    by (metis append_eq_conv_conj prefix_def)
  moreover have "d @ p @ x = (d @ butlast p) @ ([last p] @ x)"
    using p by (metis append.assoc)
  ultimately have "take (length p) ((d @ butlast p) @ ([last p] @ x)) = p" by simp
  with len have "take (length p) (d @ butlast p) = p" by simp
  then have "prefix p (d @ butlast p)" by (metis take_is_prefix)
  then show ?thesis by (rule prefix_imp_sublist)
qed

lemma sublist_left: "sublist xs ys \<Longrightarrow> sublist xs (ps @ ys)"
proof -
  assume "sublist xs ys"
  then obtain a b where "ys = a @ xs @ b" by (auto simp: sublist_def)
  then have "ps @ ys = (ps @ a) @ xs @ b" by simp
  then show ?thesis unfolding sublist_def by blast
qed

lemma sublist_right: "sublist xs ys \<Longrightarrow> sublist xs (ys @ ss)"
proof -
  assume "sublist xs ys"
  then obtain a b where "ys = a @ xs @ b" by (auto simp: sublist_def)
  then have "ys @ ss = a @ xs @ (b @ ss)" by simp
  then show ?thesis unfolding sublist_def by blast
qed

lemma rstrip_all_space: "(\<forall>x \<in> set s. isspace x) \<Longrightarrow> rstrip s = []"
  by (simp add: rstrip_def)

lemma rstrip_Cons: "\<not> (\<forall>x \<in> set (c # s). isspace x) \<Longrightarrow> rstrip (c # s) = c # rstrip s"
  by (auto simp: rstrip_def dropWhile_append)

lemma prefix_dropWhile_sublist: "prefix cl (dropWhile P s) \<Longrightarrow> sublist cl s"
proof -
  assume "prefix cl (dropWhile P s)"
  then obtain z where "dropWhile P s = cl @ z" by (auto simp: prefix_def)
  then have "s = takeWhile P s @ cl @ z" by (metis takeWhile_dropWhile_id)
  then show ?thesis unfolding sublist_def by blast
qed

lemma lazy_step:
  "re_match False (Grp_Lazy_Any # r) prev s
     = (case re_match False r prev s of
          Some (g, rest) \<Rightarrow> Some ([], rest)
        | None \<Rightarrow>
            (case s of
               [] \<Rightarrow> None
             | c # cs \<Rightarrow>
                 (case re_match False (Grp_Lazy_Any # r) (Some c) cs of
                    Some (g, rest) \<Rightarrow> Some (c # g, rest)
                  | None \<Rightarrow> None)))"
  by (rule re_match.simps)

lemma lazy_none:
  assumes "cl \<noteq> []" "\<not> isspace (hd cl)"
  shows "\<not> sublist cl s \<Longrightarrow> re_match False [Grp_Lazy_Any, Space_Star, Lit cl] prev s = None"
proof (induction s arbitrary: prev)
  case Nil
  then have "\<not> prefix cl (dropWhile isspace [])" using prefix_dropWhile_sublist by blast
  then show ?case
    by (subst lazy_step) (simp add: tail_match [OF assms] del: re_match.simps)
next
  case (Cons c cs)
  then have "\<not> prefix cl (dropWhile isspace (c # cs))"
    using prefix_dropWhile_sublist by blast
  moreover from Cons.prems have "\<not> sublist cl cs" by (simp add: sublist_Cons_right)
  ultimately show ?case
    by (subst lazy_step) (simp add: tail_match [OF assms] Cons.IH del: re_match.simps)
qed

lemma lazy_some:
  assumes "cl \<noteq> []" "\<not> isspace (hd cl)"
  shows "\<not> sublist cl (body @ butlast cl) \<Longrightarrow>
     re_match False [Grp_Lazy_Any, Space_Star, Lit cl] prev (body @ cl @ rest)
       = Some (rstrip body, rest)"
proof (induction body arbitrary: prev)
  case Nil
  from assms have "dropWhile isspace (cl @ rest) = cl @ rest" by (cases cl) auto
  then show ?case
    by (subst lazy_step) (simp add: tail_match [OF assms] rstrip_def del: re_match.simps)
next
  case (Cons c b)
  show ?case
  proof (cases "\<forall>x \<in> set (c # b). isspace x")
    case True
    from assms have "dropWhile isspace (cl @ rest) = cl @ rest" by (cases cl) auto
    with True have "dropWhile isspace ((c # b) @ cl @ rest) = cl @ rest"
      by (simp add: dropWhile_append)
    then show ?thesis
      by (subst lazy_step)
         (simp add: tail_match [OF assms] rstrip_all_space [OF True] del: re_match.simps)
  next
    case False
    define d where "d = dropWhile isspace (c # b)"
    from False have dne: "d \<noteq> []" by (auto simp: d_def)
    from False obtain x where "x \<in> set (c # b)" "\<not> isspace x" by auto
    then have dw: "dropWhile isspace ((c # b) @ cl @ rest) = d @ cl @ rest"
      unfolding d_def by (rule dropWhile_append1)
    have "\<not> prefix cl (d @ cl @ rest)"
    proof
      assume "prefix cl (d @ cl @ rest)"
      from first_occurrence_prefix [OF dne this] have "sublist cl (d @ butlast cl)" .
      then have "sublist cl (takeWhile isspace (c # b) @ (d @ butlast cl))"
        by (rule sublist_left)
      then have "sublist cl ((c # b) @ butlast cl)"
        unfolding d_def by (simp only: append_assoc [symmetric] takeWhile_dropWhile_id)
      with Cons.prems show False by simp
    qed
    with dw have t: "re_match False [Space_Star, Lit cl] prev (c # b @ cl @ rest) = None"
      by (simp add: tail_match [OF assms] del: re_match.simps)
    from Cons.prems have "\<not> sublist cl (b @ butlast cl)" by (simp add: sublist_Cons_right)
    from Cons.IH [OF this]
    have ih: "re_match False [Grp_Lazy_Any, Space_Star, Lit cl] (Some c) (b @ cl @ rest)
        = Some (rstrip b, rest)" .
    show ?thesis
      by (subst lazy_step) (simp add: t ih rstrip_Cons [OF False] del: re_match.simps)
  qed
qed

lemma not_sublist_butlast: "p \<noteq> [] \<Longrightarrow> \<not> sublist p (butlast p)"
proof
  assume ne: "p \<noteq> []" and "sublist p (butlast p)"
  then have "length p \<le> length (butlast p)" by (intro sublist_length_le)
  then have "length p \<le> length p - 1" by (simp only: length_butlast)
  with ne show False by (cases p) simp_all
qed

lemma first_occurrence_exists:
  assumes "p \<noteq> []"
  shows "sublist p s \<Longrightarrow> \<exists>pre post. s = pre @ p @ post \<and> \<not> sublist p (pre @ butlast p)"
proof (induction s)
  case Nil
  with assms show ?case by simp
next
  case (Cons c cs)
  show ?case
  proof (cases "prefix p (c # cs)")
    case True
    then obtain post where "c # cs = [] @ p @ post" by (auto simp: prefix_def)
    moreover from assms have "\<not> sublist p ([] @ butlast p)" by (simp add: not_sublist_butlast)
    ultimately show ?thesis by blast
  next
    case False
    with Cons.prems have "sublist p cs" by (simp add: sublist_Cons_right)
    from Cons.IH [OF this] obtain pre post where cs: "cs = pre @ p @ post"
      and first: "\<not> sublist p (pre @ butlast p)" by blast
    have "\<not> prefix p ((c # pre) @ butlast p)"
    proof
      assume a: "prefix p ((c # pre) @ butlast p)"
      from assms have "p = butlast p @ [last p]" by simp
      then have "c # cs = ((c # pre) @ butlast p) @ ([last p] @ post)"
        using cs by (metis append.assoc append_Cons)
      then have "prefix ((c # pre) @ butlast p) (c # cs)" by (metis prefixI)
      with a have "prefix p (c # cs)" by (rule prefix_order.trans)
      with False show False by simp
    qed
    with first have "\<not> sublist p ((c # pre) @ butlast p)" by (simp add: sublist_Cons_right)
    moreover from cs have "c # cs = (c # pre) @ p @ post" by simp
    ultimately show ?thesis by blast
  qed
qed

lemma star_step:
  "re_match False (Space_Star # r) prev (c # cs)
     = (if isspace c
        then (case re_match False (Space_Star # r) (Some c) cs of
                Some m \<Rightarrow> Some m
              | None \<Rightarrow> re_match False r prev (c # cs))
        else re_match False r prev (c # cs))"
  by (rule re_match.simps)

lemma star_nil: "re_match False (Space_Star # r) prev [] = re_match False r prev []"
  by (rule re_match.simps)

lemma block_none:
  assumes "cl \<noteq> []" "\<not> isspace (hd cl)"
  shows "\<not> sublist cl s \<Longrightarrow>
     re_match False [Space_Star, Grp_Lazy_Any, Space_Star, Lit cl] prev s = None"
proof (induction s arbitrary: prev)
  case Nil
  from lazy_none [OF assms Nil] show ?case by (simp only: star_nil)
next
  case (Cons c cs)
  then have "\<not> sublist cl cs" by (simp add: sublist_Cons_right)
  from Cons.IH [OF this]
  have ih: "re_match False [Space_Star, Grp_Lazy_Any, Space_Star, Lit cl] (Some c) cs = None" .
  from lazy_none [OF assms Cons.prems]
  have a: "re_match False [Grp_Lazy_Any, Space_Star, Lit cl] prev (c # cs) = None" .
  show ?case by (simp add: star_step a ih del: re_match.simps)
qed

lemma py_strip_rstrip: "py_strip s = rstrip (dropWhile isspace s)"
  by (simp add: py_strip_def rstrip_def)

lemma block_some:
  assumes "cl \<noteq> []" "\<not> isspace (hd cl)"
  shows "\<not> sublist cl (body @ butlast cl) \<Longrightarrow>
     re_match False [Space_Star, Grp_Lazy_Any, Space_Star, Lit cl] prev (body @ cl @ rest)
       = Some (py_strip body, rest)"
proof (induction body arbitrary: prev)
  case Nil
  from assms obtain x xs where cl: "cl = x # xs" and x: "\<not> isspace x" by (cases cl) auto
  have "re_match False [Space_Star, Grp_Lazy_Any, Space_Star, Lit cl] prev (x # xs @ rest)
      = re_match False [Grp_Lazy_Any, Space_Star, Lit cl] prev (x # xs @ rest)"
    using x by (simp only: star_step if_False)
  also have "\<dots> = Some (rstrip [], rest)"
    using lazy_some [OF assms, of "[]" prev rest] Nil by (simp add: cl)
  finally show ?case by (simp add: cl py_strip_rstrip)
next
  case (Cons c b)
  from Cons.prems have nb: "\<not> sublist cl (b @ butlast cl)" by (simp add: sublist_Cons_right)
  show ?case
  proof (cases "isspace c")
    case True
    from Cons.IH [OF nb, of "Some c"] True show ?thesis
      by (simp add: star_step py_strip_rstrip del: re_match.simps)
  next
    case False
    have "re_match False [Space_Star, Grp_Lazy_Any, Space_Star, Lit cl] prev (c # b @ cl @ rest)
      = re_match False [Grp_Lazy_Any, Space_Star, Lit cl] prev (c # b @ cl @ rest)"
      using False by (simp only: star_step if_False)
    also have "\<dots> = Some (rstrip (c # b), rest)"
      using lazy_some [OF assms Cons.prems, of prev rest] by simp
    finally show ?thesis using False by (simp add: py_strip_rstrip)
  qed
qed

lemma block_exists:
  assumes "cl \<noteq> []" "\<not> isspace (hd cl)" "sublist cl s"
  shows "\<exists>body rest. s = body @ cl @ rest \<and> \<not> sublist cl (body @ butlast cl)
      \<and> re_match False [Space_Star, Grp_Lazy_Any, Space_Star, Lit cl] prev s
          = Some (py_strip body, rest)"
proof -
  from first_occurrence_exists [OF assms(1) assms(3)]
  obtain body rest where s: "s = body @ cl @ rest" and f: "\<not> sublist cl (body @ butlast cl)"
    by blast
  from block_some [OF assms(1) assms(2) f, of prev rest] s f show ?thesis by blast
qed

lemma block_prev:
  assumes "cl \<noteq> []" "\<not> isspace (hd cl)"
  shows "re_match False [Space_Star, Grp_Lazy_Any, Space_Star, Lit cl] p s
       = re_match False [Space_Star, Grp_Lazy_Any, Space_Star, Lit cl] p' s"
proof (cases "sublist cl s")
  case True
  from block_exists [OF assms True, of p] block_some [OF assms, of _ p'] show ?thesis
    by (metis)
next
  case False
  from block_none [OF assms False, of p] block_none [OF assms False, of p']
  show ?thesis by simp
qed

lemma fence_at:
  "re_match False [Lit opn, Space_Star, Grp_Lazy_Any, Space_Star, Lit cl] prev s
     = (if prefix opn s
        then re_match False [Space_Star, Grp_Lazy_Any, Space_Star, Lit cl]
               (prev_after prev (take (length opn) s)) (drop (length opn) s)
        else None)"
  by (simp only: re_match.simps lit_match_cs)

lemma fence_prev:
  assumes "cl \<noteq> []" "\<not> isspace (hd cl)"
  shows "re_match False [Lit opn, Space_Star, Grp_Lazy_Any, Space_Star, Lit cl] p s
       = re_match False [Lit opn, Space_Star, Grp_Lazy_Any, Space_Star, Lit cl] p' s"
  unfolding fence_at using block_prev [OF assms] by simp

lemma findall_prev:
  assumes "cl \<noteq> []" "\<not> isspace (hd cl)"
  shows "findall_aux False [Lit opn, Space_Star, Grp_Lazy_Any, Space_Star, Lit cl] k p s
       = findall_aux False [Lit opn, Space_Star, Grp_Lazy_Any, Space_Star, Lit cl] k p' s"
proof (induction s arbitrary: k p p')
  case Nil
  then show ?case
    using fence_prev [OF assms, of opn p "[]" p'] by (simp del: re_match.simps)
next
  case (Cons c cs)
  show ?case
  proof (cases k)
    case 0
    then show ?thesis
      using fence_prev [OF assms, of opn p "c # cs" p'] by (simp del: re_match.simps)
  next
    case (Suc n)
    then show ?thesis by simp
  qed
qed

lemma findall_skip:
  assumes "cl \<noteq> []" "\<not> isspace (hd cl)"
  shows "findall_aux False [Lit opn, Space_Star, Grp_Lazy_Any, Space_Star, Lit cl]
           (length xs) p (xs @ rest)
       = findall_aux False [Lit opn, Space_Star, Grp_Lazy_Any, Space_Star, Lit cl] 0 p' rest"
proof (induction xs arbitrary: p)
  case Nil
  then show ?case using findall_prev [OF assms, of opn 0 p rest p'] by simp
next
  case (Cons x xs)
  then show ?case by simp
qed

lemma findall_empty_iff:
  assumes "opn \<noteq> []" "cl \<noteq> []" "\<not> isspace (hd cl)"
  shows "(findall_aux False [Lit opn, Space_Star, Grp_Lazy_Any, Space_Star, Lit cl] 0 prev s = [])
       = (\<not> (\<exists>a b c. s = a @ opn @ b @ cl @ c))"
proof (induction s arbitrary: prev)
  case Nil
  from assms(1) have "\<not> prefix opn []" by simp
  then have "re_match False [Lit opn, Space_Star, Grp_Lazy_Any, Space_Star, Lit cl] prev [] = None"
    by (simp only: fence_at if_False)
  with assms(1) show ?case by (simp del: re_match.simps)
next
  case (Cons x xs)
  let ?P = "[Lit opn, Space_Star, Grp_Lazy_Any, Space_Star, Lit cl]"
  show ?case
  proof (cases "re_match False ?P prev (x # xs)")
    case None
    have no_head: "\<not> (\<exists>b c. x # xs = opn @ b @ cl @ c)"
    proof
      assume "\<exists>b c. x # xs = opn @ b @ cl @ c"
      then obtain b c where e: "x # xs = opn @ b @ cl @ c" by blast
      then have pre: "prefix opn (x # xs)" by (metis prefixI)
      from e have "drop (length opn) (x # xs) = b @ cl @ c" by (metis append_eq_conv_conj)
      then have "sublist cl (drop (length opn) (x # xs))" by (simp add: sublist_def) blast
      from block_exists [OF assms(2) assms(3) this,
          of "prev_after prev (take (length opn) (x # xs))"]
      obtain g where "re_match False [Space_Star, Grp_Lazy_Any, Space_Star, Lit cl]
          (prev_after prev (take (length opn) (x # xs))) (drop (length opn) (x # xs)) = Some g"
        by blast
      with pre None show False by (simp only: fence_at if_True) simp
    qed
    have "(\<exists>a b c. x # xs = a @ opn @ b @ cl @ c) = (\<exists>a b c. xs = a @ opn @ b @ cl @ c)"
    proof
      assume "\<exists>a b c. x # xs = a @ opn @ b @ cl @ c"
      then obtain a b c where e: "x # xs = a @ opn @ b @ cl @ c" by blast
      with no_head have "a \<noteq> []" by auto
      then obtain a' where "a = x # a'" using e by (cases a) auto
      with e have "xs = a' @ opn @ b @ cl @ c" by simp
      then show "\<exists>a b c. xs = a @ opn @ b @ cl @ c" by blast
    next
      assume "\<exists>a b c. xs = a @ opn @ b @ cl @ c"
      then obtain a b c where "xs = a @ opn @ b @ cl @ c" by blast
      then have "x # xs = (x # a) @ opn @ b @ cl @ c" by simp
      then show "\<exists>a b c. x # xs = a @ opn @ b @ cl @ c" by blast
    qed
    with None Cons.IH [of "Some x"] show ?thesis by (simp del: re_match.simps)
  next
    case (Some m)
    then have pre: "prefix opn (x # xs)"
      by (simp only: fence_at split: if_splits) simp
    with Some have b: "re_match False [Space_Star, Grp_Lazy_Any, Space_Star, Lit cl]
        (prev_after prev (take (length opn) (x # xs))) (drop (length opn) (x # xs)) = Some m"
      by (simp only: fence_at if_True)
    have "sublist cl (drop (length opn) (x # xs))"
    proof (rule ccontr)
      assume "\<not> sublist cl (drop (length opn) (x # xs))"
      from block_none [OF assms(2) assms(3) this] b show False by simp
    qed
    then obtain b c where "drop (length opn) (x # xs) = b @ cl @ c" by (auto simp: sublist_def)
    moreover from pre have "x # xs = opn @ drop (length opn) (x # xs)"
      by (metis append_eq_conv_conj prefix_def)
    ultimately have "x # xs = [] @ opn @ b @ cl @ c" by simp
    then have "\<exists>a b c. x # xs = a @ opn @ b @ cl @ c" by blast
    with Some show ?thesis by (cases m) (simp del: re_match.simps)
  qed
qed

lemma findall_step:
  assumes "opn \<noteq> []" "cl \<noteq> []" "\<not> isspace (hd cl)"
    and "\<not> sublist cl (body @ butlast cl)"
  shows "\<not> sublist opn (pre @ butlast opn) \<Longrightarrow>
     findall_aux False [Lit opn, Space_Star, Grp_Lazy_Any, Space_Star, Lit cl] 0 prev
       (pre @ opn @ body @ cl @ rest)
     = py_strip body
       # findall_aux False [Lit opn, Space_Star, Grp_Lazy_Any, Space_Star, Lit cl] 0 prev' rest"
proof (induction pre arbitrary: prev)
  case Nil
  let ?P = "[Lit opn, Space_Star, Grp_Lazy_Any, Space_Star, Lit cl]"
  from assms(1) obtain x xs where opn: "opn = x # xs" by (cases opn) auto
  have m: "re_match False ?P prev (opn @ body @ cl @ rest) = Some (py_strip body, rest)"
    by (simp only: fence_at) (simp add: block_some [OF assms(2) assms(3) assms(4)]
          del: re_match.simps)
  have l: "length (xs @ body @ cl @ rest) - length rest = length (xs @ body @ cl)" by simp
  have "findall_aux False ?P 0 prev (x # xs @ body @ cl @ rest)
      = py_strip body # findall_aux False ?P (length (xs @ body @ cl)) (Some x)
          ((xs @ body @ cl) @ rest)"
    using m l by (simp add: opn del: re_match.simps)
  also have "findall_aux False ?P (length (xs @ body @ cl)) (Some x) ((xs @ body @ cl) @ rest)
      = findall_aux False ?P 0 prev' rest"
    by (rule findall_skip [OF assms(2) assms(3)])
  finally show ?case by (simp add: opn)
next
  case (Cons c pre)
  let ?P = "[Lit opn, Space_Star, Grp_Lazy_Any, Space_Star, Lit cl]"
  have "\<not> prefix opn ((c # pre) @ opn @ (body @ cl @ rest))"
    using first_occurrence_prefix [of "c # pre" opn "body @ cl @ rest"] Cons.prems by blast
  then have n: "re_match False ?P prev (c # pre @ opn @ body @ cl @ rest) = None"
    by (simp only: fence_at) simp
  from Cons.prems have "\<not> sublist opn (pre @ butlast opn)" by (simp add: sublist_Cons_right)
  from Cons.IH [OF this, of "Some c"] n show ?case by (simp del: re_match.simps)
qed

text \<open>
  Claim C5, as amended. The dictionary has the five tags, each with the blocks found for
  it. For a tag, no block is found exactly when the text nowhere contains the fence
  token directly followed by the tag and, somewhere after it, a closing fence; the
  position in the line plays no part. When the text does contain one, the first block
  starts at the first fence with the tag and ends at the first closing fence after it,
  what is captured is the text between them without the whitespace around it, and the
  blocks that follow are those of the rest of the text: all blocks are captured, in the
  order of the text.
\<close>

theorem C5_extraction:
  "extract_code_blocks text
     = map (\<lambda>lang. (lang, blocks_of lang text)) [''python'', ''javascript'', ''html'', ''css'', ''bash'']
   \<and> (blocks_of lang text = []) = (\<not> (\<exists>a b c. text = a @ (''```'' @ lang) @ b @ ''```'' @ c))
   \<and> (\<forall>pre body rest.
         text = pre @ (''```'' @ lang) @ body @ ''```'' @ rest
         \<and> \<not> sublist (''```'' @ lang) (pre @ butlast (''```'' @ lang))
         \<and> \<not> sublist ''```'' (body @ ''``'')
       \<longrightarrow> blocks_of lang text = py_strip body # blocks_of lang rest)"
proof -
  have o: "''```'' @ lang \<noteq> []" by simp
  have c: "''```'' \<noteq> []" by simp
  have h: "\<not> isspace (hd ''```'')" by (simp add: isspace_def)
  have b: "butlast ''```'' = ''``''" by simp
  have 1: "extract_code_blocks text
     = map (\<lambda>lang. (lang, blocks_of lang text)) [''python'', ''javascript'', ''html'', ''css'', ''bash'']"
    by (simp add: extract_code_blocks_def blocks_of_def)
  have 2: "(blocks_of lang text = []) = (\<not> (\<exists>a b c. text = a @ (''```'' @ lang) @ b @ ''```'' @ c))"
    unfolding blocks_of_def re_findall_def fence_pattern_def
    by (rule findall_empty_iff [OF o c h])
  have 3: "\<forall>pre body rest.
         text = pre @ (''```'' @ lang) @ body @ ''```'' @ rest
         \<and> \<not> sublist (''```'' @ lang) (pre @ butlast (''```'' @ lang))
         \<and> \<not> sublist ''```'' (body @ ''``'')
       \<longrightarrow> blocks_of lang text = py_strip body # blocks_of lang rest"
  proof (intro allI impI)
    fix pre body rest
    assume a: "text = pre @ (''```'' @ lang) @ body @ ''```'' @ rest
         \<and> \<not> sublist (''```'' @ lang) (pre @ butlast (''```'' @ lang))
         \<and> \<not> sublist ''```'' (body @ ''``'')"
    then have f: "\<not> sublist ''```'' (body @ butlast ''```'')" by simp
    from a have g: "\<not> sublist (''```'' @ lang) (pre @ butlast (''```'' @ lang))" by blast
    from a have t: "text = pre @ (''```'' @ lang) @ body @ ''```'' @ rest" by blast
    show "blocks_of lang text = py_strip body # blocks_of lang rest"
      unfolding blocks_of_def re_findall_def fence_pattern_def t
      by (rule findall_step [OF o c h f g])
  qed
  from 1 2 3 show ?thesis by (intro conjI)
qed

text \<open>
  Claim C5 as stated fails: a fence that is not at the start of a line opens a block all
  the same.
\<close>

theorem C5_counterexample:
  "hd midline_text = CHR ''s'' \<and> nl \<notin> set midline_text
   \<and> extract_code_blocks midline_text
       = [(''python'', []), (''javascript'', []), (''html'', []), (''css'', [''p{}'']), (''bash'', [])]"
  by (simp add: midline_text_def nl_def extract_code_blocks_def engine_simps)

theorem C5_extraction_witness:
  "spaced_text = ''a '' @ (''```'' @ ''css'') @ '' p{} '' @ ''```'' @ '' b''
   \<and> \<not> sublist (''```'' @ ''css'') (''a '' @ butlast (''```'' @ ''css''))
   \<and> \<not> sublist ''```'' ('' p{} '' @ ''``'')
   \<and> blocks_of ''css'' spaced_text = py_strip '' p{} '' # blocks_of ''css'' '' b''"
proof -
  have a: "spaced_text = ''a '' @ (''```'' @ ''css'') @ '' p{} '' @ ''```'' @ '' b''"
    by (simp add: spaced_text_def)
  have b: "\<not> sublist (''```'' @ ''css'') (''a '' @ butlast (''```'' @ ''css''))"
    unfolding py_in_sublist [symmetric] by simp
  have c: "\<not> sublist ''```'' ('' p{} '' @ ''``'')"
    unfolding py_in_sublist [symmetric] by simp
  note d = mp [OF spec [OF spec [OF spec [OF conjunct2 [OF conjunct2
        [OF C5_extraction [of spaced_text "''css''"]]]]]] conjI [OF a conjI [OF b c]]]
  show ?thesis by (intro conjI a b c d)
qed

subsection \<open>The wrapper tokens of the assembled document\<close>






































end
